theory Spec2Isabelle
  imports Main
begin

section \<open>JavaScript values\<close>

text \<open>
  The program is \<^verbatim>\<open>src/demo/server.js\<close>, a Node.js/Express application. Its record
  representation is the plain JavaScript object, so the development starts with the part
  of the language the program relies on.

  A JavaScript string is a sequence of UTF-16 code units. Here a string is a \<^typ>\<open>string\<close>
  whose characters stand for the code units below 256; the character classes the program
  uses (white space for \<^verbatim>\<open>trim\<close>, \<^verbatim>\<open>\w\<close>, ASCII case folding) are given on those
  code units. A number is carried as its decimal text: the program only ever creates the
  numbers \<^verbatim>\<open>transactions.length + 1\<close> and \<^verbatim>\<open>topics[topic].length\<close>, and passes every
  other number through unchanged.
\<close>

datatype jsval =
    JNull
  | JBool bool
  | JNum string
  | JStr string
  | JArr "jsval list"
  | JObj "(string \<times> jsval) list"

type_synonym jsobj = "(string \<times> jsval) list"

text \<open>
  The exceptions the program can meet. \<open>Unmodelled\<close> is not an exception of the program:
  it marks an input that leads outside this model of the language (a string with a code
  unit above 255).
\<close>

datatype error = SyntaxError string | TypeError string | IoError string | Unmodelled string

definition dquote :: char where
  "dquote = CHR 0x22"

definition bslash :: char where
  "bslash = CHR 0x5C"

definition nl :: string where
  "nl = [CHR 0x0A]"

subsection \<open>Decimal numerals\<close>

definition digit_char :: "nat \<Rightarrow> char" where
  "digit_char d = (''0123456789abcdef'' ! d)"

function show_nat :: "nat \<Rightarrow> string" where
  "show_nat n = (if n < 10 then [digit_char n] else show_nat (n div 10) @ [digit_char (n mod 10)])"
  by pat_completeness auto
termination
  by (relation "measure id") auto

declare show_nat.simps [simp del]

definition is_digit :: "char \<Rightarrow> bool" where
  "is_digit c = (48 \<le> (of_char c :: nat) \<and> (of_char c :: nat) \<le> 57)"

definition dec_val :: "string \<Rightarrow> nat" where
  "dec_val k = foldl (\<lambda>n c. 10 * n + ((of_char c :: nat) - 48)) 0 k"

subsection \<open>Objects: own properties in property order\<close>

text \<open>
  An object is the list of its own enumerable properties in the order
  \<^verbatim>\<open>Object.keys\<close> reports them: the keys that are array indices (canonical decimal
  numerals below \<open>2^32 - 1\<close>) first, in ascending numeric order, then every other key in
  the order of its creation. Writing an existing key keeps its place.
\<close>

definition is_array_index :: "string \<Rightarrow> bool" where
  "is_array_index k =
     (k \<noteq> [] \<and> list_all is_digit k \<and> (if hd k = CHR ''0'' then k = ''0'' else True) \<and>
      dec_val k < 4294967295)"

fun obj_replace :: "string \<Rightarrow> jsval \<Rightarrow> jsobj \<Rightarrow> jsobj" where
  "obj_replace k v [] = []"
| "obj_replace k v ((k', v') # r) =
     (if k' = k then (k, v) # r else (k', v') # obj_replace k v r)"

fun obj_insert_index :: "string \<Rightarrow> jsval \<Rightarrow> jsobj \<Rightarrow> jsobj" where
  "obj_insert_index k v [] = [(k, v)]"
| "obj_insert_index k v ((k', v') # r) =
     (if is_array_index k' \<and> dec_val k' < dec_val k
      then (k', v') # obj_insert_index k v r
      else (k, v) # (k', v') # r)"

definition obj_keys :: "jsobj \<Rightarrow> string list" where
  "obj_keys ob = map fst ob"

text \<open>
  \<open>obj_define\<close> is the definition of a data property (an object literal's
  \<^verbatim>\<open>key: value\<close>, the spread \<^verbatim>\<open>...source\<close>, a member read by \<^verbatim>\<open>JSON.parse\<close>).
\<close>

definition obj_define :: "jsobj \<Rightarrow> string \<Rightarrow> jsval \<Rightarrow> jsobj" where
  "obj_define ob k v =
     (if k \<in> set (obj_keys ob) then obj_replace k v ob
      else if is_array_index k then obj_insert_index k v ob
      else ob @ [(k, v)])"

text \<open>
  \<open>obj_set\<close> is the assignment \<^verbatim>\<open>obj[k] = v\<close> of a string \<open>v\<close> to an object made by
  \<^verbatim>\<open>{}\<close> that has only been assigned to: the assignment to \<^verbatim>\<open>__proto__\<close> reaches the
  setter inherited from \<^verbatim>\<open>Object.prototype\<close>, which ignores a value that is neither an
  object nor null, and creates no property.
\<close>

definition obj_set :: "jsobj \<Rightarrow> string \<Rightarrow> jsval \<Rightarrow> jsobj" where
  "obj_set ob k v = (if k = ''__proto__'' then ob else obj_define ob k v)"

text \<open>
  The properties every object made by \<^verbatim>\<open>{}\<close> inherits from \<^verbatim>\<open>Object.prototype\<close>. A
  read \<^verbatim>\<open>obj[k]\<close> of a key that is not an own property finds them: eleven functions and,
  under \<^verbatim>\<open>__proto__\<close>, the prototype object itself. All are truthy.
\<close>

definition proto_names :: "string list" where
  "proto_names =
     [''constructor'', ''__defineGetter__'', ''__defineSetter__'', ''hasOwnProperty'',
      ''__lookupGetter__'', ''__lookupSetter__'', ''isPrototypeOf'', ''propertyIsEnumerable'',
      ''toString'', ''valueOf'', ''__proto__'', ''toLocaleString'']"

definition inherited :: "string \<Rightarrow> bool" where
  "inherited k = (k \<in> set proto_names)"

subsection \<open>Conversion to string\<close>

fun join_strs :: "string \<Rightarrow> string list \<Rightarrow> string" where
  "join_strs sep [] = []"
| "join_strs sep [x] = x"
| "join_strs sep (x # y # r) = x @ sep @ join_strs sep (y # r)"

text \<open>
  \<open>to_string\<close> is \<^verbatim>\<open>String(v)\<close>. An array converts through \<^verbatim>\<open>join(',')\<close>, which
  writes null as the empty string.
\<close>

fun to_string :: "jsval \<Rightarrow> string" where
  "to_string JNull = ''null''"
| "to_string (JBool b) = (if b then ''true'' else ''false'')"
| "to_string (JNum n) = n"
| "to_string (JStr s) = s"
| "to_string (JArr xs) = join_strs '','' (map (\<lambda>v. if v = JNull then [] else to_string v) xs)"
| "to_string (JObj ps) = ''[object Object]''"

text \<open>The text \<^verbatim>\<open>Array.prototype.join\<close> writes for one element.\<close>

definition join_cell :: "jsval \<Rightarrow> string" where
  "join_cell v = (if v = JNull then [] else to_string v)"

text \<open>
  The text of an inherited property (V8 prints a built-in function as
  \<^verbatim>\<open>function name() { [native code] }\<close>).
\<close>

definition inherited_text :: "string \<Rightarrow> string" where
  "inherited_text k =
     (if k = ''__proto__'' then ''[object Object]''
      else if k = ''constructor'' then ''function Object() { [native code] }''
      else ''function '' @ k @ ''() { [native code] }'')"

subsection \<open>JSON.stringify\<close>

text \<open>
  \<^verbatim>\<open>JSON.stringify(value, null, gap)\<close> after ECMA-262 (SerializeJSONProperty,
  SerializeJSONObject, SerializeJSONArray, QuoteJSONString): \<open>gap\<close> is the indentation
  unit (two spaces for \<^verbatim>\<open>JSON.stringify(v, null, 2)\<close>, empty for \<^verbatim>\<open>JSON.stringify(v)\<close>)
  and \<open>ind\<close> the current indentation.
\<close>

definition json_escape :: "char \<Rightarrow> string" where
  "json_escape c =
     (if c = dquote then [bslash, dquote]
      else if c = bslash then [bslash, bslash]
      else if c = CHR 0x08 then [bslash, CHR ''b'']
      else if c = CHR 0x0C then [bslash, CHR ''f'']
      else if c = CHR 0x0A then [bslash, CHR ''n'']
      else if c = CHR 0x0D then [bslash, CHR ''r'']
      else if c = CHR 0x09 then [bslash, CHR ''t'']
      else if (of_char c :: nat) < 32
        then [bslash, CHR ''u'', CHR ''0'', CHR ''0'',
              digit_char ((of_char c :: nat) div 16), digit_char ((of_char c :: nat) mod 16)]
      else [c])"

definition quote_json :: "string \<Rightarrow> string" where
  "quote_json s = dquote # concat (map json_escape s) @ [dquote]"

fun stringify :: "string \<Rightarrow> string \<Rightarrow> jsval \<Rightarrow> string" where
  "stringify gap ind JNull = ''null''"
| "stringify gap ind (JBool b) = (if b then ''true'' else ''false'')"
| "stringify gap ind (JNum n) = n"
| "stringify gap ind (JStr s) = quote_json s"
| "stringify gap ind (JArr xs) =
     (if xs = [] then ''[]''
      else if gap = [] then ''['' @ join_strs '','' (map (stringify gap (ind @ gap)) xs) @ '']''
      else ''['' @ nl @ (ind @ gap) @
           join_strs ('','' @ nl @ (ind @ gap)) (map (stringify gap (ind @ gap)) xs) @
           nl @ ind @ '']'')"
| "stringify gap ind (JObj ps) =
     (if ps = [] then ''{}''
      else if gap = [] then
        ''{'' @ join_strs '',''
          (map (\<lambda>p. quote_json (fst p) @ '':'' @ stringify gap (ind @ gap) (snd p)) ps) @ ''}''
      else ''{'' @ nl @ (ind @ gap) @
           join_strs ('','' @ nl @ (ind @ gap))
             (map (\<lambda>p. quote_json (fst p) @ '': '' @ stringify gap (ind @ gap) (snd p)) ps) @
           nl @ ind @ ''}'')"

definition JSON_stringify :: "jsval \<Rightarrow> string" where
  "JSON_stringify v = stringify [] [] v"

definition JSON_stringify2 :: "jsval \<Rightarrow> string" where
  "JSON_stringify2 v = stringify ''  '' [] v"

section \<open>The record codec: serialisers\<close>

text \<open>
  \<^verbatim>\<open>recordsToCsv\<close>: the cell \<^verbatim>\<open>r[h] ?? ''\<close> reads an own property, else an inherited
  one, and is the empty string when the read is undefined or null; \<^verbatim>\<open>join\<close> then writes
  the cell as text.
\<close>

definition csv_cell :: "jsobj \<Rightarrow> string \<Rightarrow> string" where
  "csv_cell r h =
     (case map_of r h of
        Some v \<Rightarrow> join_cell v
      | None \<Rightarrow> if inherited h then inherited_text h else [])"

definition recordsToCsv :: "jsobj list \<Rightarrow> string" where
  "recordsToCsv records =
     (if records = [] then []
      else let headers = obj_keys (hd records)
           in join_strs nl
                (join_strs '','' headers #
                 map (\<lambda>r. join_strs '','' (map (csv_cell r) headers)) records))"

definition replace_char :: "char \<Rightarrow> string \<Rightarrow> string \<Rightarrow> string" where
  "replace_char c rep s = concat (map (\<lambda>x. if x = c then rep else [x]) s)"

definition escXml :: "string \<Rightarrow> string" where
  "escXml s =
     replace_char (CHR ''>'') ''&gt;''
       (replace_char (CHR ''<'') ''&lt;'' (replace_char (CHR ''&'') ''&amp;'' s))"

definition xml_field :: "string \<times> jsval \<Rightarrow> string" where
  "xml_field p =
     ''    <'' @ fst p @ ''>'' @ escXml (to_string (snd p)) @ ''</'' @ fst p @ ''>'' @ nl"

definition xml_item :: "jsobj \<Rightarrow> string" where
  "xml_item r = ''  <transaction>'' @ nl @ concat (map xml_field r) @ ''  </transaction>'' @ nl"

definition xml_prolog :: string where
  "xml_prolog =
     ''<?xml version='' @ [dquote] @ ''1.0'' @ [dquote] @ '' encoding='' @ [dquote] @
     ''UTF-8'' @ [dquote] @ ''?>'' @ nl @ ''<transactions>'' @ nl"

definition recordsToXml :: "jsobj list \<Rightarrow> string" where
  "recordsToXml records = xml_prolog @ concat (map xml_item records) @ ''</transactions>''"

section \<open>The record codec: parsers\<close>

subsection \<open>Delimited text\<close>

text \<open>
  \<^verbatim>\<open>String.prototype.trim\<close> removes white space and line terminators at both ends; among
  the code units below 256 these are tab, line feed, vertical tab, form feed, carriage
  return, space and no-break space.
\<close>

definition is_space :: "char \<Rightarrow> bool" where
  "is_space c = ((of_char c :: nat) \<in> set [9, 10, 11, 12, 13, 32, 160])"

definition js_trim :: "string \<Rightarrow> string" where
  "js_trim s = rev (dropWhile is_space (rev (dropWhile is_space s)))"

fun split_on :: "char \<Rightarrow> string \<Rightarrow> string list" where
  "split_on sep [] = [[]]"
| "split_on sep (c # s) =
     (if c = sep then [] # split_on sep s
      else (case split_on sep s of [] \<Rightarrow> [[c]] | l # ls \<Rightarrow> (c # l) # ls))"

text \<open>
  \<^verbatim>\<open>split(/\r?\n/)\<close>: a line ends at a line feed, and a carriage return right before
  that line feed belongs to the separator.
\<close>

fun split_lines :: "string \<Rightarrow> string list" where
  "split_lines [] = [[]]"
| "split_lines (c # s) =
     (if c = CHR 0x0A then [] # split_lines s
      else if c = CHR 0x0D \<and> s \<noteq> [] \<and> hd s = CHR 0x0A then [] # split_lines (tl s)
      else (case split_lines s of [] \<Rightarrow> [[c]] | l # ls \<Rightarrow> (c # l) # ls))"

text \<open>
  \<^verbatim>\<open>headers.forEach((h, i) => obj[h] = vals[i] || '')\<close> on a fresh object: a value that
  is missing (\<^verbatim>\<open>undefined\<close>) or empty gives the empty string.
\<close>

definition csv_row :: "string list \<Rightarrow> string \<Rightarrow> jsobj" where
  "csv_row headers line =
     (let vals = map js_trim (split_on (CHR '','') line)
      in foldl (\<lambda>ob hi. obj_set ob (fst hi) (JStr (if snd hi < length vals then vals ! snd hi else [])))
           [] (zip headers [0 ..< length headers]))"

definition csvToRecords :: "string \<Rightarrow> jsobj list" where
  "csvToRecords csv =
     (let lines = filter (\<lambda>l. l \<noteq> []) (map js_trim (split_lines (js_trim csv)))
      in if length lines < 2 then []
         else let headers = map js_trim (split_on (CHR '','') (hd lines))
              in map (csv_row headers) (tl lines))"


definition csv_cells :: "string \<Rightarrow> string list" where
  "csv_cells l = map js_trim (split_on (CHR '','') l)"

definition pad_to :: "nat \<Rightarrow> string list \<Rightarrow> string list" where
  "pad_to n vs = take n (vs @ replicate n [])"

definition record_of :: "(string \<times> string) list \<Rightarrow> jsobj" where
  "record_of ps = foldl (\<lambda>ob p. obj_set ob (fst p) (JStr (snd p))) [] ps"


text \<open>Auxiliary notions of the proofs about lines.\<close>

definition keep_lines :: "string list \<Rightarrow> string list" where
  "keep_lines ls = filter (\<lambda>l. l \<noteq> []) (map js_trim ls)"

definition strip_cr :: "string \<Rightarrow> string" where
  "strip_cr l = (if l \<noteq> [] \<and> last l = CHR 0x0D then butlast l else l)"

fun cr_fix :: "string list \<Rightarrow> string list" where
  "cr_fix [] = []"
| "cr_fix [l] = [l]"
| "cr_fix (l # m # ls) = strip_cr l # cr_fix (m # ls)"

subsection \<open>Tagged markup\<close>

text \<open>
  \<^verbatim>\<open>xmlToRecords\<close> runs two regular expressions in \<^verbatim>\<open>exec\<close> loops. Both are searches
  for fixed text around a lazy \<^verbatim>\<open>[\s\S]*?\<close>, so each match is: the leftmost start at
  which the opening matches and the closing occurs later, and from there the first
  occurrence of the closing. \<open>starts_with ci\<close> matches a literal at the head of the text
  (\<open>ci\<close>: ignoring ASCII case, as the \<^verbatim>\<open>i\<close> flag does for the letters of
  \<^verbatim>\<open>transaction\<close>; \<open>case_code\<close> is the code of the upper-case form), \<open>find_sub\<close>
  finds its first occurrence and returns the text before and after it.
\<close>

definition is_word :: "char \<Rightarrow> bool" where
  "is_word c =
     (let n = (of_char c :: nat)
      in (48 \<le> n \<and> n \<le> 57) \<or> (65 \<le> n \<and> n \<le> 90) \<or> n = 95 \<or> (97 \<le> n \<and> n \<le> 122))"

definition case_code :: "char \<Rightarrow> nat" where
  "case_code c =
     (let n = (of_char c :: nat) in if 97 \<le> n \<and> n \<le> 122 then n - 32 else n)"

fun starts_with :: "bool \<Rightarrow> string \<Rightarrow> string \<Rightarrow> bool" where
  "starts_with ci [] s = True"
| "starts_with ci (p # ps) [] = False"
| "starts_with ci (p # ps) (c # s) =
     ((if ci then case_code p = case_code c else p = c) \<and> starts_with ci ps s)"

fun find_sub :: "bool \<Rightarrow> string \<Rightarrow> string \<Rightarrow> (string \<times> string) option" where
  "find_sub ci pat [] = (if pat = [] then Some ([], []) else None)"
| "find_sub ci pat (c # s) =
     (if starts_with ci pat (c # s) then Some ([], drop (length pat) (c # s))
      else (case find_sub ci pat s of None \<Rightarrow> None | Some p \<Rightarrow> Some (c # fst p, snd p)))"

lemma starts_with_length: "starts_with ci pat s \<Longrightarrow> length pat \<le> length s"
  by (induction ci pat s rule: starts_with.induct) auto

lemma find_sub_length:
  "find_sub ci pat s = Some p \<Longrightarrow> length pat + length (snd p) \<le> length s"
proof (induction s arbitrary: p)
  case Nil
  then show ?case by (auto split: if_splits)
next
  case (Cons c s)
  show ?case
  proof (cases "starts_with ci pat (c # s)")
    case True
    with Cons.prems starts_with_length [OF True] show ?thesis by auto
  next
    case False
    with Cons.prems obtain q where q: "find_sub ci pat s = Some q" and p: "p = (c # fst q, snd q)"
      by (auto split: option.splits)
    from Cons.IH [OF q] p show ?thesis by simp
  qed
qed

text \<open>
  \<^verbatim>\<open>/<transaction>([\s\S]*?)<\/transaction>/gi\<close>: the contents of the items, in order.
  When the first opening tag has no closing tag after it, no later one has.
\<close>

function xml_items :: "string \<Rightarrow> string list" where
  "xml_items xml =
     (case find_sub True ''<transaction>'' xml of
        None \<Rightarrow> []
      | Some p \<Rightarrow>
          (case find_sub True ''</transaction>'' (snd p) of
             None \<Rightarrow> []
           | Some q \<Rightarrow> fst q # xml_items (snd q)))"
  by pat_completeness auto
termination
proof (relation "measure length")
  show "wf (measure length)" by simp
next
  fix xml :: string and p q :: "string \<times> string"
  assume p: "find_sub True ''<transaction>'' xml = Some p"
    and q: "find_sub True ''</transaction>'' (snd p) = Some q"
  from find_sub_length [OF p] find_sub_length [OF q]
  show "(snd q, xml) \<in> measure length" by simp
qed

text \<open>
  \<^verbatim>\<open>/<(\w+)>([\s\S]*?)<\/>/g\<close>: at a \<^verbatim>\<open><\<close>, the name is the longest run of word
  characters (a shorter one is not followed by \<^verbatim>\<open>>\<close>), and the value ends at the first
  closing tag of that name; when there is none the search goes on at the next character.
  The value is trimmed.
\<close>

function xml_fields :: "string \<Rightarrow> (string \<times> string) list" where
  "xml_fields [] = []"
| "xml_fields (c # s) =
     (if c = CHR ''<'' \<and> takeWhile is_word s \<noteq> [] \<and>
         starts_with False ''>'' (dropWhile is_word s)
      then (case find_sub False (''</'' @ takeWhile is_word s @ ''>'') (tl (dropWhile is_word s)) of
              None \<Rightarrow> xml_fields s
            | Some p \<Rightarrow> (takeWhile is_word s, js_trim (fst p)) # xml_fields (snd p))
      else xml_fields s)"
  by pat_completeness auto
termination
proof (relation "measure length")
  show "wf (measure length)" by simp
next
  fix c :: char and s :: string
  show "(s, c # s) \<in> measure length" by simp
next
  fix c :: char and s :: string and p :: "string \<times> string"
  assume "find_sub False (''</'' @ takeWhile is_word s @ ''>'') (tl (dropWhile is_word s)) = Some p"
  from find_sub_length [OF this]
  have "length (snd p) \<le> length (dropWhile is_word s)" by simp
  also have "\<dots> \<le> length s" by (rule length_dropWhile_le)
  finally show "(snd p, c # s) \<in> measure length" by simp
next
  fix c :: char and s :: string
  show "(s, c # s) \<in> measure length" by simp
qed

definition xml_record :: "string \<Rightarrow> jsobj" where
  "xml_record inner = foldl (\<lambda>ob f. obj_set ob (fst f) (JStr (snd f))) [] (xml_fields inner)"

definition xmlToRecords :: "string \<Rightarrow> jsobj list" where
  "xmlToRecords xml = map xml_record (xml_items xml)"

subsection \<open>JSON.parse\<close>

text \<open>
  \<^verbatim>\<open>JSON.parse\<close> after ECMA-404 and ECMA-262: a recursive descent over the text. The
  members of an object are defined in order (a repeated key keeps its place and takes the
  last value). A number is kept as its text. The functions take fuel; \<open>JSON_parse\<close> gives
  one more than the length of the text, which is never used up (lemma
  \<open>JSON_parse_fuel\<close>).
\<close>

definition json_ws :: "char \<Rightarrow> bool" where
  "json_ws c = (c = CHR '' '' \<or> c = CHR 0x09 \<or> c = CHR 0x0A \<or> c = CHR 0x0D)"

definition skip_ws :: "string \<Rightarrow> string" where
  "skip_ws s = dropWhile json_ws s"

definition hex_val :: "char \<Rightarrow> nat option" where
  "hex_val c =
     (let n = (of_char c :: nat)
      in if 48 \<le> n \<and> n \<le> 57 then Some (n - 48)
         else if 97 \<le> n \<and> n \<le> 102 then Some (n - 87)
         else if 65 \<le> n \<and> n \<le> 70 then Some (n - 55)
         else None)"

definition unescape :: "char \<Rightarrow> char option" where
  "unescape e =
     (if e = dquote then Some dquote
      else if e = bslash then Some bslash
      else if e = CHR ''/'' then Some (CHR ''/'')
      else if e = CHR ''b'' then Some (CHR 0x08)
      else if e = CHR ''f'' then Some (CHR 0x0C)
      else if e = CHR ''n'' then Some (CHR 0x0A)
      else if e = CHR ''r'' then Some (CHR 0x0D)
      else if e = CHR ''t'' then Some (CHR 0x09)
      else None)"

definition cons_char :: "char \<Rightarrow> error + (string \<times> string) \<Rightarrow> error + (string \<times> string)" where
  "cons_char c r = (case r of Inl e \<Rightarrow> Inl e | Inr p \<Rightarrow> Inr (c # fst p, snd p))"

fun parse_chars :: "string \<Rightarrow> error + (string \<times> string)" where
  "parse_chars [] = Inl (SyntaxError ''Unterminated string in JSON'')"
| "parse_chars (c # s) =
     (if c = dquote then Inr ([], s)
      else if c = bslash then
        (case s of
           [] \<Rightarrow> Inl (SyntaxError ''Unterminated string in JSON'')
         | e # s' \<Rightarrow>
             if e = CHR ''u'' then
               (case s' of
                  h1 # h2 # h3 # h4 # s'' \<Rightarrow>
                    (case (hex_val h1, hex_val h2, hex_val h3, hex_val h4) of
                       (Some a, Some b, Some c', Some d) \<Rightarrow>
                         if a = 0 \<and> b = 0 then cons_char (char_of (16 * c' + d)) (parse_chars s'')
                         else Inl (Unmodelled ''code unit above 255'')
                     | _ \<Rightarrow> Inl (SyntaxError ''Bad Unicode escape in JSON''))
                | _ \<Rightarrow> Inl (SyntaxError ''Bad Unicode escape in JSON''))
             else
               (case unescape e of
                  None \<Rightarrow> Inl (SyntaxError ''Bad escaped character in JSON'')
                | Some x \<Rightarrow> cons_char x (parse_chars s')))
      else if (of_char c :: nat) < 32 then Inl (SyntaxError ''Bad control character in string literal in JSON'')
      else cons_char c (parse_chars s))"

definition take_digits :: "string \<Rightarrow> string \<times> string" where
  "take_digits s = (takeWhile is_digit s, dropWhile is_digit s)"

definition parse_int_part :: "string \<Rightarrow> (string \<times> string) option" where
  "parse_int_part s =
     (case s of
        [] \<Rightarrow> None
      | c # t \<Rightarrow> if c = CHR ''0'' then Some (''0'', t)
                 else if is_digit c then Some (take_digits s)
                 else None)"

definition parse_frac_part :: "string \<Rightarrow> (string \<times> string) option" where
  "parse_frac_part s =
     (case s of
        [] \<Rightarrow> Some ([], s)
      | c # t \<Rightarrow> if c = CHR ''.'' then
                   (if fst (take_digits t) = [] then None
                    else Some (c # fst (take_digits t), snd (take_digits t)))
                 else Some ([], s))"

definition parse_exp_part :: "string \<Rightarrow> (string \<times> string) option" where
  "parse_exp_part s =
     (case s of
        [] \<Rightarrow> Some ([], s)
      | c # t \<Rightarrow>
          if c = CHR ''e'' \<or> c = CHR ''E'' then
            (let sign = (case t of [] \<Rightarrow> [] | x # u \<Rightarrow> if x = CHR ''+'' \<or> x = CHR ''-'' then [x] else []);
                 t' = drop (length sign) t
             in if fst (take_digits t') = [] then None
                else Some (c # sign @ fst (take_digits t'), snd (take_digits t')))
          else Some ([], s))"

definition parse_number :: "string \<Rightarrow> error + (string \<times> string)" where
  "parse_number s =
     (let sign = (case s of [] \<Rightarrow> [] | c # t \<Rightarrow> if c = CHR ''-'' then [c] else [])
      in case parse_int_part (drop (length sign) s) of
           None \<Rightarrow> Inl (SyntaxError ''No number after minus sign in JSON'')
         | Some (i, r1) \<Rightarrow>
             (case parse_frac_part r1 of
                None \<Rightarrow> Inl (SyntaxError ''Unterminated fractional number in JSON'')
              | Some (f, r2) \<Rightarrow>
                  (case parse_exp_part r2 of
                     None \<Rightarrow> Inl (SyntaxError ''Exponent part is missing a number in JSON'')
                   | Some (e, r3) \<Rightarrow> Inr (sign @ i @ f @ e, r3))))"

definition strip_prefix :: "string \<Rightarrow> string \<Rightarrow> string option" where
  "strip_prefix p s = (if take (length p) s = p then Some (drop (length p) s) else None)"

fun parse_value :: "nat \<Rightarrow> string \<Rightarrow> error + (jsval \<times> string)"
and parse_elems :: "nat \<Rightarrow> jsval list \<Rightarrow> string \<Rightarrow> error + (jsval \<times> string)"
and parse_members :: "nat \<Rightarrow> jsobj \<Rightarrow> string \<Rightarrow> error + (jsval \<times> string)" where
  "parse_value 0 s = Inl (Unmodelled ''fuel'')"
| "parse_value (Suc n) s =
     (case skip_ws s of
        [] \<Rightarrow> Inl (SyntaxError ''Unexpected end of JSON input'')
      | c # t \<Rightarrow>
          if c = CHR ''{'' then
            (case skip_ws t of
               [] \<Rightarrow> Inl (SyntaxError ''Unexpected end of JSON input'')
             | d # u \<Rightarrow> if d = CHR ''}'' then Inr (JObj [], u) else parse_members n [] (d # u))
          else if c = CHR ''['' then
            (case skip_ws t of
               [] \<Rightarrow> Inl (SyntaxError ''Unexpected end of JSON input'')
             | d # u \<Rightarrow> if d = CHR '']'' then Inr (JArr [], u) else parse_elems n [] (d # u))
          else if c = dquote then
            (case parse_chars t of Inl e \<Rightarrow> Inl e | Inr p \<Rightarrow> Inr (JStr (fst p), snd p))
          else if c = CHR ''-'' \<or> is_digit c then
            (case parse_number (c # t) of Inl e \<Rightarrow> Inl e | Inr p \<Rightarrow> Inr (JNum (fst p), snd p))
          else
            (case strip_prefix ''true'' (c # t) of
               Some r \<Rightarrow> Inr (JBool True, r)
             | None \<Rightarrow>
                 (case strip_prefix ''false'' (c # t) of
                    Some r \<Rightarrow> Inr (JBool False, r)
                  | None \<Rightarrow>
                      (case strip_prefix ''null'' (c # t) of
                         Some r \<Rightarrow> Inr (JNull, r)
                       | None \<Rightarrow> Inl (SyntaxError ''Unexpected token in JSON'')))))"
| "parse_elems 0 acc s = Inl (Unmodelled ''fuel'')"
| "parse_elems (Suc n) acc s =
     (case parse_value (Suc n) s of
        Inl e \<Rightarrow> Inl e
      | Inr p \<Rightarrow>
          (case skip_ws (snd p) of
             [] \<Rightarrow> Inl (SyntaxError ''Unexpected end of JSON input'')
           | c # t \<Rightarrow>
               if c = CHR '','' then parse_elems n (acc @ [fst p]) t
               else if c = CHR '']'' then Inr (JArr (acc @ [fst p]), t)
               else Inl (SyntaxError ''Unexpected token in JSON'')))"
| "parse_members 0 acc s = Inl (Unmodelled ''fuel'')"
| "parse_members (Suc n) acc s =
     (case skip_ws s of
        [] \<Rightarrow> Inl (SyntaxError ''Unexpected end of JSON input'')
      | q # t \<Rightarrow>
          if q \<noteq> dquote then Inl (SyntaxError ''Expected property name in JSON'')
          else
            (case parse_chars t of
               Inl e \<Rightarrow> Inl e
             | Inr kp \<Rightarrow>
                 (case skip_ws (snd kp) of
                    [] \<Rightarrow> Inl (SyntaxError ''Unexpected end of JSON input'')
                  | c # u \<Rightarrow>
                      if c \<noteq> CHR '':'' then Inl (SyntaxError ''Expected colon in JSON'')
                      else
                        (case parse_value (Suc n) u of
                           Inl e \<Rightarrow> Inl e
                         | Inr p \<Rightarrow>
                             (case skip_ws (snd p) of
                                [] \<Rightarrow> Inl (SyntaxError ''Unexpected end of JSON input'')
                              | d # w \<Rightarrow>
                                  if d = CHR '','' then
                                    parse_members n (obj_define acc (fst kp) (fst p)) w
                                  else if d = CHR ''}'' then
                                    Inr (JObj (obj_define acc (fst kp) (fst p)), w)
                                  else Inl (SyntaxError ''Unexpected token in JSON''))))))"

definition JSON_parse :: "string \<Rightarrow> error + jsval" where
  "JSON_parse s =
     (case parse_value (Suc (length s)) s of
        Inl e \<Rightarrow> Inl e
      | Inr p \<Rightarrow> if skip_ws (snd p) = [] then Inr (fst p)
                 else Inl (SyntaxError ''Unexpected non-whitespace character after JSON''))"


subsection \<open>parseFile\<close>

text \<open>
  \<^verbatim>\<open>parseFile\<close> returns an array of records, any JSON value, or null for another
  extension; the exception of \<^verbatim>\<open>JSON.parse\<close> passes through.
\<close>

definition parseFile :: "string \<Rightarrow> string \<Rightarrow> error + jsval" where
  "parseFile content ext =
     (if ext = ''.csv'' then Inr (JArr (map JObj (csvToRecords content)))
      else if ext = ''.json'' then JSON_parse content
      else if ext = ''.xml'' then Inr (JArr (map JObj (xmlToRecords content)))
      else Inr JNull)"

text \<open>
  The errors \<^verbatim>\<open>JSON.parse\<close> ends with: a SyntaxError, or the model's mark for a string
  escape above 255. \<open>consumed r k\<close> says that a parsing step ended with such an error or
  left fewer than \<open>k\<close> characters.
\<close>

fun is_parse_error :: "error \<Rightarrow> bool" where
  "is_parse_error (SyntaxError m) = True"
| "is_parse_error e = False"

definition json_error :: "error \<Rightarrow> bool" where
  "json_error e = (is_parse_error e \<or> e = Unmodelled ''code unit above 255'')"

definition consumed :: "error + ('a \<times> string) \<Rightarrow> nat \<Rightarrow> bool" where
  "consumed r k = (case r of Inl e \<Rightarrow> json_error e | Inr p \<Rightarrow> length (snd p) < k)"

section \<open>Record sets that survive a round trip\<close>

text \<open>
  A JavaScript object lists its array-index keys first, in ascending order, and the other
  keys in creation order; its keys are distinct. \<open>wf_keys\<close> says that a list of keys is in
  this order, so that an association list stands for an object that can exist.
\<close>

definition key_before :: "string \<Rightarrow> string \<Rightarrow> bool" where
  "key_before k k' = (if is_array_index k' then is_array_index k \<and> dec_val k < dec_val k' else True)"

definition wf_keys :: "string list \<Rightarrow> bool" where
  "wf_keys ks = (distinct ks \<and> sorted_wrt key_before ks)"

text \<open>
  Delimited text. A cell that \<^verbatim>\<open>csvToRecords\<close> reads back unchanged has no comma, no line
  feed and no white space at its ends. \<open>csv_ok\<close>: the records list the same fields in the
  same order, there is at least one field, no line is blank (a single field is neither
  named nor valued by the empty text), no field is named \<^verbatim>\<open>__proto__\<close>, and every name and
  every value is such a cell, the values being text.
\<close>

definition clean_cell :: "string \<Rightarrow> bool" where
  "clean_cell s = (CHR '','' \<notin> set s \<and> CHR 0x0A \<notin> set s \<and> js_trim s = s)"

definition clean_text :: "jsval \<Rightarrow> bool" where
  "clean_text v = (case v of JStr s \<Rightarrow> clean_cell s | _ \<Rightarrow> False)"

definition csv_ok :: "jsobj list \<Rightarrow> bool" where
  "csv_ok rs =
     (case rs of
        [] \<Rightarrow> True
      | r0 # rest \<Rightarrow>
          obj_keys r0 \<noteq> [] \<and> obj_keys r0 \<noteq> [[]] \<and> wf_keys (obj_keys r0) \<and>
          ''__proto__'' \<notin> set (obj_keys r0) \<and> list_all clean_cell (obj_keys r0) \<and>
          list_all (\<lambda>r. obj_keys r = obj_keys r0 \<and> list_all clean_text (map snd r) \<and>
                         map snd r \<noteq> [JStr []]) rs)"

text \<open>The text of the values of a record: the cells \<^verbatim>\<open>recordsToCsv\<close> writes for it.\<close>

definition cell_texts :: "jsobj \<Rightarrow> string list" where
  "cell_texts r = map (\<lambda>p. join_cell (snd p)) r"

text \<open>
  Tagged markup. A field name that \<^verbatim>\<open>xmlToRecords\<close> reads back is a non-empty run of word
  characters, is not \<^verbatim>\<open>transaction\<close> in any letter case (the item tag) and is not
  \<^verbatim>\<open>__proto__\<close>; a value is text without ampersand and angle brackets and without white
  space at its ends. The records need not list the same fields.
\<close>

definition xml_key_ok :: "string \<Rightarrow> bool" where
  "xml_key_ok k =
     (k \<noteq> [] \<and> list_all is_word k \<and> map case_code k \<noteq> map case_code ''transaction'' \<and>
      k \<noteq> ''__proto__'')"

definition xml_text_ok :: "jsval \<Rightarrow> bool" where
  "xml_text_ok v =
     (case v of
        JStr s \<Rightarrow> CHR ''&'' \<notin> set s \<and> CHR ''<'' \<notin> set s \<and> CHR ''>'' \<notin> set s \<and> js_trim s = s
      | _ \<Rightarrow> False)"

definition xml_rec_ok :: "jsobj \<Rightarrow> bool" where
  "xml_rec_ok r =
     (wf_keys (obj_keys r) \<and> list_all xml_key_ok (obj_keys r) \<and> list_all xml_text_ok (map snd r))"

definition xml_ok :: "jsobj list \<Rightarrow> bool" where
  "xml_ok rs = list_all xml_rec_ok rs"

definition fields_ok :: "jsobj \<Rightarrow> bool" where
  "fields_ok r = list_all (\<lambda>p. xml_key_ok (fst p) \<and> xml_text_ok (snd p)) r"

text \<open>
  The text \<^verbatim>\<open>recordsToXml\<close> writes for one field whose value needs no escaping, and the
  text between the tags of one item.
\<close>

definition field_text :: "string \<Rightarrow> string \<Rightarrow> string" where
  "field_text k v = ''    <'' @ k @ ''>'' @ v @ ''</'' @ k @ ''>'' @ nl"

definition inner :: "jsobj \<Rightarrow> string" where
  "inner r = nl @ concat (map xml_field r) @ ''  ''"

text \<open>
  \<open>ch_match\<close> is the comparison of one character in \<open>starts_with\<close>; \<open>skips a s\<close> says that
  the search for the closing item tag finds nothing that starts inside \<open>a\<close>.
\<close>

definition ch_match :: "bool \<Rightarrow> char \<Rightarrow> char \<Rightarrow> bool" where
  "ch_match ci p c = (if ci then case_code p = case_code c else p = c)"

definition skips :: "string \<Rightarrow> string \<Rightarrow> bool" where
  "skips a s =
     (find_sub True ''</transaction>'' (a @ s) =
      map_option (\<lambda>q. (a @ fst q, snd q)) (find_sub True ''</transaction>'' s))"

text \<open>
  The structured document. The values of a record are text; \<open>rebuilt acc ps\<close> is the
  object \<^verbatim>\<open>JSON.parse\<close> builds when it defines the members \<open>ps\<close> in order, starting
  from \<open>acc\<close>. \<open>json_ok\<close>: every record is an object that can exist and holds text.
\<close>

definition is_text :: "jsval \<Rightarrow> bool" where
  "is_text v = (case v of JStr s \<Rightarrow> True | _ \<Rightarrow> False)"

definition text_record :: "jsobj \<Rightarrow> bool" where
  "text_record r = list_all (\<lambda>p. is_text (snd p)) r"

abbreviation rebuilt :: "jsobj \<Rightarrow> jsobj \<Rightarrow> jsobj" where
  "rebuilt acc ps \<equiv> foldl (\<lambda>ob p. obj_define ob (fst p) (snd p)) acc ps"

definition json_ok :: "jsobj list \<Rightarrow> bool" where
  "json_ok rs = list_all (\<lambda>r. wf_keys (obj_keys r) \<and> text_record r) rs"

section \<open>The transaction store and the export route\<close>

text \<open>
  The process-wide state of the routes: the \<^verbatim>\<open>transactions\<close> array and the files of
  the \<^verbatim>\<open>exports\<close> directory, by file name. Console output (\<^verbatim>\<open>log\<close>) is not part of
  the state. A response is its HTTP status and its JSON body.
\<close>

record store =
  transactions :: "jsobj list"
  exports :: "string \<rightharpoonup> string"

record response =
  status :: nat
  body :: jsval

text \<open>
  \<^verbatim>\<open>{ id: transactions.length + 1, ...req.body, received_at: new Date().toISOString() }\<close>:
  the literal defines \<^verbatim>\<open>id\<close>, then copies the own properties of the body in their
  order, then defines \<^verbatim>\<open>received_at\<close>. \<open>now\<close> is the text of the clock.
\<close>

definition spread :: "jsobj \<Rightarrow> jsobj \<Rightarrow> jsobj" where
  "spread ob src = foldl (\<lambda>acc p. obj_define acc (fst p) (snd p)) ob src"

definition new_txn :: "jsobj list \<Rightarrow> jsobj \<Rightarrow> string \<Rightarrow> jsobj" where
  "new_txn txns req_body now =
     obj_define (spread [(''id'', JNum (show_nat (length txns + 1)))] req_body)
       ''received_at'' (JStr now)"

text \<open>The property read \<^verbatim>\<open>txn.id\<close> in a template literal.\<close>

definition txn_id_text :: "jsobj \<Rightarrow> string" where
  "txn_id_text txn =
     (case map_of txn ''id'' of Some v \<Rightarrow> to_string v | None \<Rightarrow> ''undefined'')"

definition post_transactions :: "jsobj \<Rightarrow> string \<Rightarrow> store \<Rightarrow> store \<times> response" where
  "post_transactions req_body now s =
     (let txn = new_txn (transactions s) req_body now
      in (s\<lparr>transactions := transactions s @ [txn]\<rparr>,
          \<lparr>status = 200,
           body = JObj [(''status'', JStr ''accepted''),
                        (''message'', JStr (''Transaction #'' @ txn_id_text txn @ '' stored'')),
                        (''transaction'', JObj txn)]\<rparr>))"

definition get_transactions :: "store \<Rightarrow> store \<times> response" where
  "get_transactions s =
     (s, \<lparr>status = 200,
          body = JObj [(''count'', JNum (show_nat (length (transactions s)))),
                       (''transactions'', JArr (map JObj (transactions s)))]\<rparr>)"

text \<open>
  A query parameter as Express (the \<^verbatim>\<open>qs\<close> parser) hands it over: absent, a string, or
  for a repeated or bracketed parameter an array or an object.
\<close>

datatype qparam = QStr string | QArr "qparam list" | QObj "(string \<times> qparam) list"

definition lower_char :: "char \<Rightarrow> char" where
  "lower_char c =
     (let n = (of_char c :: nat)
      in if (65 \<le> n \<and> n \<le> 90) \<or> (192 \<le> n \<and> n \<le> 222 \<and> n \<noteq> 215) then char_of (n + 32)
         else c)"

definition toLowerCase :: "string \<Rightarrow> string" where
  "toLowerCase s = map lower_char s"

text \<open>
  \<^verbatim>\<open>(req.query.format || 'json').toLowerCase()\<close>: an absent or empty parameter is falsy
  and gives \<^verbatim>\<open>'json'\<close>; an array or object is truthy and has no \<^verbatim>\<open>toLowerCase\<close>, so the
  call throws a TypeError.
\<close>

definition export_format :: "qparam option \<Rightarrow> error + string" where
  "export_format q =
     (case q of
        None \<Rightarrow> Inr (toLowerCase ''json'')
      | Some (QStr f) \<Rightarrow> Inr (toLowerCase (if f = [] then ''json'' else f))
      | Some _ \<Rightarrow> Inl (TypeError ''toLowerCase is not a function''))"

text \<open>
  \<^verbatim>\<open>app.post('/api/export')\<close>. \<open>ts\<close> is \<^verbatim>\<open>Date.now()\<close> and \<open>disk_ok\<close> tells whether
  \<^verbatim>\<open>fs.writeFileSync\<close> succeeds for the file. An exception thrown in the handler reaches
  Express's error handler, which answers 500.
\<close>

definition export_content :: "string \<Rightarrow> jsobj list \<Rightarrow> string" where
  "export_content format txns =
     (if format = ''json'' then JSON_stringify2 (JArr (map JObj txns))
      else if format = ''csv'' then recordsToCsv txns
      else recordsToXml txns)"

definition post_export :: "qparam option \<Rightarrow> nat \<Rightarrow> (string \<Rightarrow> bool) \<Rightarrow> store \<Rightarrow> store \<times> response" where
  "post_export q ts disk_ok s =
     (case export_format q of
        Inl e \<Rightarrow> (s, \<lparr>status = 500, body = JNull\<rparr>)
      | Inr format \<Rightarrow>
          if format \<notin> set [''csv'', ''json'', ''xml'']
          then (s, \<lparr>status = 400,
                    body = JObj [(''error'', JStr ''Format must be csv, json, or xml'')]\<rparr>)
          else
            let filename = ''export-'' @ show_nat ts @ ''.'' @ format;
                content = export_content format (transactions s)
            in if disk_ok filename
               then (s\<lparr>exports := (exports s)(filename \<mapsto> content)\<rparr>,
                     \<lparr>status = 200,
                      body = JObj [(''status'', JStr ''exported''), (''file'', JStr filename),
                                   (''count'', JNum (show_nat (length (transactions s))))]\<rparr>)
               else (s, \<lparr>status = 500, body = JNull\<rparr>))"

text \<open>A request to the store, and a run of requests from the empty store.\<close>

datatype request =
    PostTransaction jsobj string
  | GetTransactions
  | PostExport "qparam option" nat

definition handle :: "(string \<Rightarrow> bool) \<Rightarrow> store \<Rightarrow> request \<Rightarrow> store" where
  "handle disk_ok s r =
     (case r of
        PostTransaction b now \<Rightarrow> fst (post_transactions b now s)
      | GetTransactions \<Rightarrow> fst (get_transactions s)
      | PostExport q ts \<Rightarrow> fst (post_export q ts disk_ok s))"

definition store0 :: store where
  "store0 = \<lparr>transactions = [], exports = Map.empty\<rparr>"

definition run :: "(string \<Rightarrow> bool) \<Rightarrow> request list \<Rightarrow> store" where
  "run disk_ok rs = foldl (handle disk_ok) store0 rs"

definition posted :: "request list \<Rightarrow> jsobj list" where
  "posted rs = concat (map (\<lambda>r. case r of PostTransaction b now \<Rightarrow> [b] | _ \<Rightarrow> []) rs)"

definition txn_ids :: "store \<Rightarrow> jsval option list" where
  "txn_ids s = map (\<lambda>t. map_of t ''id'') (transactions s)"

section \<open>The event bus\<close>

text \<open>
  \<^verbatim>\<open>topics\<close> and \<^verbatim>\<open>subscribers\<close> are plain objects used as dictionaries from topic names
  to arrays; the maps hold their own properties. A streaming subscriber is the response
  object of its request; here it is the number of its connection, and \<open>sinks\<close> holds, for
  every connection opened so far, the frames written to it.
\<close>

record bus =
  topics :: "string \<rightharpoonup> jsobj list"
  subscribers :: "string \<rightharpoonup> nat list"
  sinks :: "string list list"

text \<open>
  The read \<^verbatim>\<open>dict[key]\<close>: an own property, else a property inherited from
  \<^verbatim>\<open>Object.prototype\<close> (a function or the prototype: truthy, and without \<^verbatim>\<open>push\<close> and
  \<^verbatim>\<open>forEach\<close>), else undefined.
\<close>

datatype 'a slot = Own 'a | Proto | Missing

definition slot :: "(string \<rightharpoonup> 'a) \<Rightarrow> string \<Rightarrow> 'a slot" where
  "slot m k = (case m k of Some v \<Rightarrow> Own v | None \<Rightarrow> if inherited k then Proto else Missing)"

definition mk_msg :: "nat \<Rightarrow> string \<Rightarrow> jsval \<Rightarrow> jsobj" where
  "mk_msg n now payload =
     [(''offset'', JNum (show_nat n)), (''timestamp'', JStr now), (''data'', payload)]"

definition sse_frame :: "jsobj \<Rightarrow> string" where
  "sse_frame msg = ''data: '' @ JSON_stringify (JObj msg) @ nl @ nl"

definition deliver :: "string \<Rightarrow> nat list \<Rightarrow> string list list \<Rightarrow> string list list" where
  "deliver frame subs sk = foldl (\<lambda>acc c. acc[c := acc ! c @ [frame]]) sk subs"

text \<open>
  \<^verbatim>\<open>publishToTopic\<close>. The result is the state and either the message or the exception
  thrown. For a topic name that \<^verbatim>\<open>topics\<close> inherits, \<^verbatim>\<open>!topics[topic]\<close> is false, no
  array is made, and \<^verbatim>\<open>topics[topic].push\<close> is not a function.
\<close>

definition publishToTopic :: "string \<Rightarrow> jsval \<Rightarrow> string \<Rightarrow> bus \<Rightarrow> bus \<times> (error + jsobj)" where
  "publishToTopic topic payload now b =
     (case slot (topics b) topic of
        Proto \<Rightarrow> (b, Inl (TypeError ''topics[topic].push is not a function''))
      | t \<Rightarrow>
          let msgs = (case t of Own ms \<Rightarrow> ms | _ \<Rightarrow> []);
              msg = mk_msg (length msgs) now payload;
              b1 = b\<lparr>topics := (topics b)(topic \<mapsto> msgs @ [msg])\<rparr>
          in case slot (subscribers b) topic of
               Proto \<Rightarrow> (b1, Inl (TypeError ''(subscribers[topic] || []).forEach is not a function''))
             | Own subs \<Rightarrow> (b1\<lparr>sinks := deliver (sse_frame msg) subs (sinks b)\<rparr>, Inr msg)
             | Missing \<Rightarrow> (b1, Inr msg))"

definition post_publish :: "string \<Rightarrow> jsval \<Rightarrow> string \<Rightarrow> bus \<Rightarrow> bus \<times> response" where
  "post_publish topic payload now b =
     (case publishToTopic topic payload now b of
        (b', Inl e) \<Rightarrow> (b', \<lparr>status = 500, body = JNull\<rparr>)
      | (b', Inr msg) \<Rightarrow>
          (b', \<lparr>status = 200,
                body = JObj [(''status'', JStr ''published''), (''topic'', JStr topic),
                             (''offset'', (case map_of msg ''offset'' of Some v \<Rightarrow> v | None \<Rightarrow> JNull))]\<rparr>))"

text \<open>
  \<^verbatim>\<open>app.get('/api/subscribe/:topic')\<close> with \<^verbatim>\<open>Accept: text/event-stream\<close>: both
  dictionaries get an empty array for a topic they lack, the history is written to the
  new connection, and the connection joins the subscribers. The result is the state and
  the number of the connection, or the exception.
\<close>

definition init_topic :: "string \<Rightarrow> bus \<Rightarrow> bus" where
  "init_topic topic b =
     (let b1 = (if slot (topics b) topic = Missing then b\<lparr>topics := (topics b)(topic \<mapsto> [])\<rparr> else b)
      in if slot (subscribers b1) topic = Missing
         then b1\<lparr>subscribers := (subscribers b1)(topic \<mapsto> [])\<rparr> else b1)"

definition subscribe_stream :: "string \<Rightarrow> bus \<Rightarrow> bus \<times> (error + nat)" where
  "subscribe_stream topic b =
     (let b1 = init_topic topic b
      in case slot (topics b1) topic of
           Own msgs \<Rightarrow>
             (let conn = length (sinks b1);
                  b2 = b1\<lparr>sinks := sinks b1 @ [map sse_frame msgs]\<rparr>
              in case slot (subscribers b2) topic of
                   Own subs \<Rightarrow> (b2\<lparr>subscribers := (subscribers b2)(topic \<mapsto> subs @ [conn])\<rparr>, Inr conn)
                 | _ \<Rightarrow> (b2, Inl (TypeError ''subscribers[topic].push is not a function'')))
         | _ \<Rightarrow> (b1, Inl (TypeError ''topics[topic].forEach is not a function'')))"

text \<open>The \<^verbatim>\<open>close\<close> event of a streaming request.\<close>

definition close_stream :: "string \<Rightarrow> nat \<Rightarrow> bus \<Rightarrow> bus" where
  "close_stream topic conn b =
     (case subscribers b topic of
        Some subs \<Rightarrow> b\<lparr>subscribers := (subscribers b)(topic \<mapsto> filter (\<lambda>c. c \<noteq> conn) subs)\<rparr>
      | None \<Rightarrow> b)"

text \<open>
  The same route without the streaming header answers with the history. For an inherited
  topic name \<^verbatim>\<open>JSON.stringify\<close> leaves out the function under \<^verbatim>\<open>messages\<close>, and writes
  the prototype as an empty object.
\<close>

definition subscribe_poll :: "string \<Rightarrow> bus \<Rightarrow> bus \<times> response" where
  "subscribe_poll topic b =
     (let b1 = init_topic topic b
      in (b1, \<lparr>status = 200,
               body = JObj ((''topic'', JStr topic) #
                 (case slot (topics b1) topic of
                    Own msgs \<Rightarrow> [(''messages'', JArr (map JObj msgs))]
                  | _ \<Rightarrow> if topic = ''__proto__'' then [(''messages'', JObj [])] else []))\<rparr>))"

definition bus0 :: bus where
  "bus0 = \<lparr>topics = Map.empty, subscribers = Map.empty, sinks = []\<rparr>"

text \<open>Publishing a list of payloads, each with its time, stopping at an exception.\<close>

fun publish_all :: "string \<Rightarrow> (jsval \<times> string) list \<Rightarrow> bus \<Rightarrow> bus \<times> (error + jsobj list)" where
  "publish_all topic [] b = (b, Inr [])"
| "publish_all topic (p # ps) b =
     (case publishToTopic topic (fst p) (snd p) b of
        (b1, Inl e) \<Rightarrow> (b1, Inl e)
      | (b1, Inr m) \<Rightarrow>
          (case publish_all topic ps b1 of
             (b2, Inl e) \<Rightarrow> (b2, Inl e)
           | (b2, Inr ms) \<Rightarrow> (b2, Inr (m # ms))))"

text \<open>The messages a topic holds after the payloads \<open>ps\<close> were published from offset \<open>k\<close> on.\<close>

fun msgs_from :: "nat \<Rightarrow> (jsval \<times> string) list \<Rightarrow> jsobj list" where
  "msgs_from k [] = []"
| "msgs_from k (p # ps) = mk_msg k (snd p) (fst p) # msgs_from (Suc k) ps"

text \<open>The log and the subscribers of a topic, empty when the dictionary has none.\<close>

definition topic_log :: "bus \<Rightarrow> string \<Rightarrow> jsobj list" where
  "topic_log b t = (case topics b t of Some ms \<Rightarrow> ms | None \<Rightarrow> [])"

definition topic_subs :: "bus \<Rightarrow> string \<Rightarrow> nat list" where
  "topic_subs b t = (case subscribers b t of Some cs \<Rightarrow> cs | None \<Rightarrow> [])"

section \<open>The transform pipeline\<close>










definition render :: "jsobj list \<Rightarrow> string \<Rightarrow> string" where
  "render records target =
     (if target = ''.json'' then JSON_stringify2 (JArr (map JObj records))
      else if target = ''.csv'' then recordsToCsv records
      else recordsToXml records)"




section \<open>The directory watcher\<close>

text \<open>
  \<^verbatim>\<open>watchDir\<close> in logical time (milliseconds). The state holds the keys of the
  \<^verbatim>\<open>debounce\<close> object, the pending timers with their due times in the order of their
  creation, the clock, which paths are regular files now, and the paths the handler was
  called with. Time passes between the happenings of a trace; a timer runs once the clock
  has reached its due time, the earlier due first and among equals the earlier created.
\<close>

datatype timer = ClearFlag string | Settle string

record watcher =
  debounce :: "string set"
  timers :: "(nat \<times> timer) list"
  clock :: nat
  disk :: "string \<Rightarrow> bool"
  calls :: "string list"

text \<open>
  The callback of \<^verbatim>\<open>fs.watch\<close>. \<^verbatim>\<open>debounce[key]\<close> is a read of a plain object; the key
  is \<^verbatim>\<open>path.join(dir, filename)\<close>.
\<close>

definition on_change :: "string \<Rightarrow> string \<Rightarrow> string option \<Rightarrow> watcher \<Rightarrow> watcher" where
  "on_change dir event filename w =
     (case filename of
        None \<Rightarrow> w
      | Some name \<Rightarrow>
          if name = [] then w
          else if event \<noteq> ''rename'' \<and> event \<noteq> ''change'' then w
          else let fp = dir @ ''/'' @ name
               in if fp \<in> debounce w \<or> inherited fp then w
                  else w\<lparr>debounce := insert fp (debounce w),
                         timers := timers w @ [(clock w + 1000, ClearFlag fp), (clock w + 300, Settle fp)]\<rparr>)"

text \<open>
  The two timer callbacks: \<^verbatim>\<open>delete debounce[key]\<close>, and the handler call guarded by
  \<^verbatim>\<open>fs.existsSync(fp) && fs.statSync(fp).isFile()\<close>.
\<close>

fun fire :: "timer \<Rightarrow> watcher \<Rightarrow> watcher" where
  "fire (ClearFlag key) w = w\<lparr>debounce := debounce w - {key}\<rparr>"
| "fire (Settle fp) w = (if disk w fp then w\<lparr>calls := calls w @ [fp]\<rparr> else w)"

definition advance :: "nat \<Rightarrow> watcher \<Rightarrow> watcher" where
  "advance t w =
     foldl (\<lambda>acc p. fire (snd p) acc)
       (w\<lparr>timers := filter (\<lambda>p. \<not> fst p \<le> t) (timers w), clock := max (clock w) t\<rparr>)
       (sort_key fst (filter (\<lambda>p. fst p \<le> t) (timers w)))"

datatype happening = Notify string "string option" | Appears string | Vanishes string

definition step :: "string \<Rightarrow> watcher \<Rightarrow> nat \<times> happening \<Rightarrow> watcher" where
  "step dir w e =
     (let w1 = advance (fst e) w
      in case snd e of
           Notify event filename \<Rightarrow> on_change dir event filename w1
         | Appears p \<Rightarrow> w1\<lparr>disk := (disk w1)(p := True)\<rparr>
         | Vanishes p \<Rightarrow> w1\<lparr>disk := (disk w1)(p := False)\<rparr>)"

definition run_trace :: "string \<Rightarrow> (nat \<times> happening) list \<Rightarrow> watcher \<Rightarrow> watcher" where
  "run_trace dir es w = foldl (step dir) w es"

text \<open>Whether a raw notification is one for the path \<open>fp\<close> that passes the two guards.\<close>

definition notifies :: "string \<Rightarrow> string \<Rightarrow> happening \<Rightarrow> bool" where
  "notifies dir fp h =
     (case h of
        Notify event filename \<Rightarrow>
          (case filename of
             None \<Rightarrow> False
           | Some name \<Rightarrow>
               name \<noteq> [] \<and> (event = ''rename'' \<or> event = ''change'') \<and> dir @ ''/'' @ name = fp)
      | _ \<Rightarrow> False)"

text \<open>
  Every raw notification for \<open>fp\<close> in the trace arrives while the debounce flag of \<open>fp\<close>
  is set.
\<close>

fun flag_held :: "string \<Rightarrow> string \<Rightarrow> (nat \<times> happening) list \<Rightarrow> watcher \<Rightarrow> bool" where
  "flag_held dir fp [] w = True"
| "flag_held dir fp (e # es) w =
     ((if notifies dir fp (snd e) then fp \<in> debounce (advance (fst e) w) else True) \<and>
      flag_held dir fp es (step dir w e))"

definition pending_settles :: "string \<Rightarrow> watcher \<Rightarrow> nat" where
  "pending_settles fp w = length (filter (\<lambda>p. snd p = Settle fp) (timers w))"

definition watcher0 :: watcher where
  "watcher0 = \<lparr>debounce = {}, timers = [], clock = 0, disk = (\<lambda>p. False), calls = []\<rparr>"

definition settles_in :: "string \<Rightarrow> (nat \<times> timer) list \<Rightarrow> nat" where
  "settles_in fp ts = length (filter (\<lambda>p. snd p = Settle fp) ts)"

text \<open>
  The invariant of the reachable states: a pending flag timer means the flag is set, a
  key has at most one pending flag timer, and a pending settle timer has its flag timer
  pending, due 700 ms later.
\<close>

definition watcher_inv :: "watcher \<Rightarrow> bool" where
  "watcher_inv w =
     ((\<forall>d k. (d, ClearFlag k) \<in> set (timers w) \<longrightarrow> k \<in> debounce w) \<and>
      (\<forall>k. length (filter (\<lambda>p. snd p = ClearFlag k) (timers w)) \<le> 1) \<and>
      (\<forall>d k. (d, Settle k) \<in> set (timers w) \<longrightarrow> (d + 700, ClearFlag k) \<in> set (timers w)))"

text \<open>Examples: the rest of a burst of notifications, and a dropped file.\<close>

definition burst :: "(nat \<times> happening) list" where
  "burst = [(1100, Notify ''change'' (Some ''a.csv'')), (1200, Notify ''change'' (Some ''a.csv''))]"


section \<open>Properties of objects\<close>

lemma in_obj_keys: "k \<in> set (obj_keys ob) \<longleftrightarrow> map_of ob k \<noteq> None"
  by (simp add: obj_keys_def map_of_eq_None_iff)

lemma map_of_obj_replace:
  "map_of (obj_replace k v ob) k' =
     (if k' = k then (if map_of ob k \<noteq> None then Some v else None) else map_of ob k')"
  by (induction ob) auto

lemma map_of_obj_insert_index:
  "map_of ob k = None \<Longrightarrow>
   map_of (obj_insert_index k v ob) k' = (if k' = k then Some v else map_of ob k')"
  by (induction ob) (auto split: if_splits)

lemma map_of_obj_define:
  "map_of (obj_define ob k v) k' = (if k' = k then Some v else map_of ob k')"
  by (cases "map_of ob k")
     (auto simp: obj_define_def in_obj_keys map_of_obj_replace map_of_obj_insert_index
        map_add_def split: option.splits)

lemma spread_snoc: "spread ob (src @ [p]) = obj_define (spread ob src) (fst p) (snd p)"
  by (simp add: spread_def)

lemma map_of_spread:
  "map_of (spread ob src) k =
     (case map_of (rev src) k of Some v \<Rightarrow> Some v | None \<Rightarrow> map_of ob k)"
proof (induction src rule: rev_induct)
  case Nil
  show ?case by (simp add: spread_def)
next
  case (snoc p src)
  show ?case
    by (cases p) (simp add: spread_snoc map_of_obj_define snoc.IH)
qed


section \<open>Properties of the transaction store\<close>

text \<open>
  The fields of a new transaction: \<^verbatim>\<open>received_at\<close> is the server's, every field of the
  body is the client's, and \<^verbatim>\<open>id\<close> is the server's only when the body has none.
\<close>

lemma map_of_new_txn:
  "map_of (new_txn txns b now) k =
     (if k = ''received_at'' then Some (JStr now)
      else case map_of (rev b) k of
             Some v \<Rightarrow> Some v
           | None \<Rightarrow> if k = ''id'' then Some (JNum (show_nat (length txns + 1))) else None)"
  by (simp add: new_txn_def map_of_obj_define map_of_spread split: option.splits)

lemma transactions_handle:
  "transactions (handle ok s r) =
     (case r of PostTransaction b now \<Rightarrow> transactions s @ [new_txn (transactions s) b now]
              | _ \<Rightarrow> transactions s)"
  by (auto simp: handle_def post_transactions_def get_transactions_def post_export_def Let_def
        split: request.splits sum.splits)

lemma txn_ids_foldl:
  "list_all (\<lambda>b. map_of b ''id'' = None) (posted rs) \<Longrightarrow>
   txn_ids (foldl (handle ok) s rs) =
     txn_ids s @ map (\<lambda>i. Some (JNum (show_nat i)))
       [Suc (length (transactions s)) ..< Suc (length (transactions s) + length (posted rs))]"
proof (induction rs arbitrary: s)
  case Nil
  show ?case by (simp add: posted_def)
next
  case (Cons r rs)
  have rest: "list_all (\<lambda>b. map_of b ''id'' = None) (posted rs)"
    using Cons.prems by (simp add: posted_def)
  show ?case
  proof (cases r)
    case (PostTransaction b now)
    with Cons.prems have noid: "map_of b ''id'' = None"
      by (simp add: posted_def)
    then have norev: "map_of (rev b) ''id'' = None"
      by (simp add: map_of_eq_None_iff)
    have ids: "txn_ids (handle ok s r) =
        txn_ids s @ [Some (JNum (show_nat (Suc (length (transactions s)))))]"
      by (simp add: txn_ids_def transactions_handle PostTransaction map_of_new_txn norev)
    have len: "length (transactions (handle ok s r)) = Suc (length (transactions s))"
      by (simp add: transactions_handle PostTransaction)
    have p: "posted (r # rs) = b # posted rs"
      by (simp add: posted_def PostTransaction)
    have u: "[Suc (length (transactions s)) ..<
               Suc (length (transactions s) + length (posted (r # rs)))] =
             Suc (length (transactions s)) #
             [Suc (Suc (length (transactions s))) ..<
               Suc (Suc (length (transactions s)) + length (posted rs))]"
      unfolding p by (subst upt_rec) simp
    show ?thesis
      using Cons.IH [OF rest, of "handle ok s r"]
      unfolding u by (simp add: ids len)
  next
    case GetTransactions
    then have "txn_ids (handle ok s r) = txn_ids s"
      and "length (transactions (handle ok s r)) = length (transactions s)"
      and "posted (r # rs) = posted rs"
      by (simp_all add: txn_ids_def transactions_handle posted_def)
    with Cons.IH [OF rest, of "handle ok s r"] show ?thesis by simp
  next
    case (PostExport q ts)
    then have "txn_ids (handle ok s r) = txn_ids s"
      and "length (transactions (handle ok s r)) = length (transactions s)"
      and "posted (r # rs) = posted rs"
      by (simp_all add: txn_ids_def transactions_handle posted_def)
    with Cons.IH [OF rest, of "handle ok s r"] show ?thesis by simp
  qed
qed

text \<open>
  Claim C1 says that N submissions, interleaved with exports or not, are stored under the
  identifiers 1..N in submission order, whatever the bodies are. The route computes
  \<^verbatim>\<open>transactions.length + 1\<close> but writes it before the spread of the body, so a body
  that has an \<^verbatim>\<open>id\<close> field replaces it (the sibling field \<^verbatim>\<open>received_at\<close>, written after
  the spread, cannot be replaced). Two submissions, the second with \<^verbatim>\<open>"id": 1\<close>, are
  stored under the identifiers 1 and 1.
\<close>

theorem client_id_breaks_sequence:
  "txn_ids (run (\<lambda>f. True) [PostTransaction [(''amount'', JStr ''5'')] ''t1'',
                              PostTransaction [(''id'', JNum ''1'')] ''t2'']) =
     [Some (JNum ''1''), Some (JNum ''1'')]"
  by (simp add: txn_ids_def run_def handle_def post_transactions_def store0_def map_of_new_txn
        Let_def show_nat.simps digit_char_def)

text \<open>
  What holds of the identifiers: when no submitted body has an \<^verbatim>\<open>id\<close> field, the stored
  transactions carry the numerals 1..N in submission order, whatever requests to the list
  and export routes come in between and whether or not the exports succeed.
\<close>

lemma txn_ids_sequential:
  "list_all (\<lambda>b. map_of b ''id'' = None) (posted rs) \<Longrightarrow>
   txn_ids (run ok rs) = map (\<lambda>i. Some (JNum (show_nat i))) [1 ..< Suc (length (posted rs))]"
  using txn_ids_foldl [of rs ok store0] by (simp add: run_def store0_def txn_ids_def)

lemma txn_ids_sequential_example:
  "txn_ids (run (\<lambda>f. True) [PostTransaction [(''amount'', JStr ''5'')] ''t1'',
        PostExport (Some (QStr ''csv'')) 17,
        PostTransaction [(''amount'', JStr ''6'')] ''t2'']) = [Some (JNum ''1''), Some (JNum ''2'')]"
  using txn_ids_sequential [of "[PostTransaction [(''amount'', JStr ''5'')] ''t1'',
        PostExport (Some (QStr ''csv'')) 17,
        PostTransaction [(''amount'', JStr ''6'')] ''t2'']" "\<lambda>f. True"]
  by (simp add: posted_def show_nat.simps digit_char_def upt_rec)




section \<open>Properties of the export route\<close>

text \<open>
  Claim C5 says that every format outside \<^verbatim>\<open>csv\<close>, \<^verbatim>\<open>json\<close>, \<^verbatim>\<open>xml\<close> is answered
  with a client error and no file. The route lower-cases the parameter first, so
  \<^verbatim>\<open>format=CSV\<close> is accepted: the answer is 200 and the file is written.
\<close>

theorem export_upper_case_format_accepted:
  "status (snd (post_export (Some (QStr ''CSV'')) 5 (\<lambda>f. True) store0)) = 200 \<and>
   exports (fst (post_export (Some (QStr ''CSV'')) 5 (\<lambda>f. True) store0)) ''export-5.csv'' =
     Some []"
  by code_simp

text \<open>
  Claim C5 as amended: when the format parameter is a non-empty string whose lower-cased
  form is outside \<^verbatim>\<open>csv\<close>, \<^verbatim>\<open>json\<close>, \<^verbatim>\<open>xml\<close>, the answer is 400 with the explanatory
  message, and the state (the transactions and the export files) is unchanged, whatever
  the clock and the disk.
\<close>

theorem export_unknown_format_rejected:
  "f \<noteq> [] \<Longrightarrow> toLowerCase f \<notin> {''csv'', ''json'', ''xml''} \<Longrightarrow>
   post_export (Some (QStr f)) ts disk_ok s =
     (s, \<lparr>status = 400, body = JObj [(''error'', JStr ''Format must be csv, json, or xml'')]\<rparr>)"
  by (simp add: post_export_def export_format_def)

theorem export_unknown_format_rejected_witness:
  "post_export (Some (QStr ''xyz'')) 5 (\<lambda>f. True) store0 =
     (store0, \<lparr>status = 400, body = JObj [(''error'', JStr ''Format must be csv, json, or xml'')]\<rparr>)"
  using export_unknown_format_rejected [of "''xyz''" 5 "\<lambda>f. True" store0]
  by (simp add: toLowerCase_def lower_char_def)

text \<open>
  An absent or empty parameter means \<^verbatim>\<open>json\<close>; a parameter that is not a string makes
  the handler throw, which Express answers with 500. Neither writes to the store.
\<close>

lemma export_never_changes_transactions:
  "transactions (fst (post_export q ts disk_ok s)) = transactions s"
  by (simp add: post_export_def Let_def split: sum.splits)

lemma export_non_string_format:
  "status (snd (post_export (Some (QArr qs)) ts disk_ok s)) = 500 \<and>
   fst (post_export (Some (QArr qs)) ts disk_ok s) = s"
  by (simp add: post_export_def export_format_def)

section \<open>Properties of the event bus\<close>

lemma slot_plain: "\<not> inherited k \<Longrightarrow> slot m k = (case m k of Some v \<Rightarrow> Own v | None \<Rightarrow> Missing)"
  by (simp add: slot_def split: option.splits)

lemma publish_plain:
  assumes "\<not> inherited t"
  shows "snd (publishToTopic t v now b) = Inr (mk_msg (length (topic_log b t)) now v)"
    and "topics (fst (publishToTopic t v now b)) =
           (topics b)(t \<mapsto> topic_log b t @ [mk_msg (length (topic_log b t)) now v])"
    and "subscribers (fst (publishToTopic t v now b)) = subscribers b"
    and "sinks (fst (publishToTopic t v now b)) =
           deliver (sse_frame (mk_msg (length (topic_log b t)) now v)) (topic_subs b t) (sinks b)"
  using assms
  by (simp_all add: publishToTopic_def slot_plain Let_def topic_log_def topic_subs_def deliver_def
        split: option.splits)

lemma publish_all_plain:
  assumes "\<not> inherited t"
  shows "snd (publish_all t ps b) = Inr (msgs_from (length (topic_log b t)) ps) \<and>
     subscribers (fst (publish_all t ps b)) = subscribers b \<and>
     topics (fst (publish_all t ps b)) t =
       (if ps = [] then topics b t else Some (topic_log b t @ msgs_from (length (topic_log b t)) ps)) \<and>
     sinks (fst (publish_all t ps b)) =
       foldl (\<lambda>sk m. deliver (sse_frame m) (topic_subs b t) sk) (sinks b)
         (msgs_from (length (topic_log b t)) ps)"
proof (induction ps arbitrary: b)
  case Nil
  show ?case by simp
next
  case (Cons p ps)
  let ?r = "publishToTopic t (fst p) (snd p) b"
  let ?m = "mk_msg (length (topic_log b t)) (snd p) (fst p)"
  note one = publish_plain [OF assms, of "fst p" "snd p" b]
  have log: "topic_log (fst ?r) t = topic_log b t @ [?m]"
    by (simp add: topic_log_def one(2))
  have subs: "topic_subs (fst ?r) t = topic_subs b t"
    by (simp add: topic_subs_def one(3))
  obtain b1 where r: "?r = (b1, Inr ?m)"
    using one(1) by (cases ?r) auto
  then have b1: "b1 = fst ?r" by simp
  let ?ms = "msgs_from (Suc (length (topic_log b t))) ps"
  have ih: "snd (publish_all t ps b1) = Inr ?ms"
    "subscribers (fst (publish_all t ps b1)) = subscribers b"
    "topics (fst (publish_all t ps b1)) t = Some (topic_log b t @ ?m # ?ms)"
    "sinks (fst (publish_all t ps b1)) =
       foldl (\<lambda>sk m. deliver (sse_frame m) (topic_subs b t) sk)
         (deliver (sse_frame ?m) (topic_subs b t) (sinks b)) ?ms"
    using Cons.IH [of b1] by (simp_all add: b1 log subs one)
  obtain b2 where r2: "publish_all t ps b1 = (b2, Inr ?ms)"
    using ih(1) by (cases "publish_all t ps b1") auto
  have all: "publish_all t (p # ps) b = (b2, Inr (?m # ?ms))"
    by (simp add: r r2)
  from ih r2 show ?case
    unfolding all by simp
qed

lemma foldl_const: "foldl (\<lambda>sk m. sk) a xs = a"
  by (induction xs) simp_all

lemma deliver_none: "deliver f [] sk = sk"
  by (simp add: deliver_def)

lemma deliver_all_one:
  "c < length sk \<Longrightarrow>
   foldl (\<lambda>sk m. deliver (sse_frame m) [c] sk) sk ms ! c = sk ! c @ map sse_frame ms"
  by (induction ms arbitrary: sk) (simp_all add: deliver_def)

lemma msgs_from_append:
  "msgs_from k (ps @ qs) = msgs_from k ps @ msgs_from (k + length ps) qs"
  by (induction ps arbitrary: k) simp_all

lemma length_msgs_from: "length (msgs_from k ps) = length ps"
  by (induction ps arbitrary: k) simp_all

lemma offsets_msgs_from:
  "map (\<lambda>m. map_of m ''offset'') (msgs_from k ps) =
     map (\<lambda>i. Some (JNum (show_nat i))) [k ..< k + length ps]"
proof (induction ps arbitrary: k)
  case Nil
  show ?case by simp
next
  case (Cons p ps)
  have "[k ..< k + length (p # ps)] = k # [Suc k ..< Suc k + length ps]"
    by (subst upt_rec) simp
  with Cons.IH [of "Suc k"] show ?case by (simp add: mk_msg_def)
qed

text \<open>
  Claim C2 says that on every fresh topic N publishes get the offsets 0..N-1, and that a
  streaming subscriber joining afterwards receives those N messages in order and then
  every later one. \<^verbatim>\<open>topics\<close> is a plain object, so for a topic named like a property
  it inherits (\<^verbatim>\<open>constructor\<close>, \<^verbatim>\<open>toString\<close>, \<^verbatim>\<open>__proto__\<close>, ...) the guard
  \<^verbatim>\<open>if (!topics[topic]) topics[topic] = []\<close> finds a truthy value, no log is made, and
  \<^verbatim>\<open>topics[topic].push(msg)\<close> throws: the first publish to the fresh topic
  \<^verbatim>\<open>constructor\<close> stores nothing and is answered with 500.
\<close>

theorem publish_inherited_topic_throws:
  "publishToTopic ''constructor'' (JObj []) ''t0'' bus0 =
     (bus0, Inl (TypeError ''topics[topic].push is not a function'')) \<and>
   status (snd (post_publish ''constructor'' (JObj []) ''t0'' bus0)) = 500"
  by (simp add: post_publish_def publishToTopic_def slot_def bus0_def inherited_def
        proto_names_def)

text \<open>
  What holds on every other topic: from a state in which the topic has neither a log nor
  subscribers, publishing the payloads \<open>ps\<close> yields the messages with offsets
  \<open>0..length ps - 1\<close> in publish order; a streaming subscriber that connects then gets a
  new connection holding exactly the frames of these messages in order; and after the
  payloads \<open>qs\<close> are published the connection holds the frames of all messages, those of
  \<open>ps\<close> then those of \<open>qs\<close>, each once.
\<close>

lemma late_subscriber:
  assumes t: "\<not> inherited t" and fresh: "topics b t = None" "subscribers b t = None"
  shows "\<exists>b1 b2 b3 c.
     publish_all t ps b = (b1, Inr (msgs_from 0 ps)) \<and>
     subscribe_stream t b1 = (b2, Inr c) \<and>
     sinks b2 ! c = map sse_frame (msgs_from 0 ps) \<and>
     publish_all t qs b2 = (b3, Inr (msgs_from (length ps) qs)) \<and>
     topics b3 t = Some (msgs_from 0 (ps @ qs)) \<and>
     sinks b3 ! c = map sse_frame (msgs_from 0 (ps @ qs))"
proof -
  let ?ms = "msgs_from 0 ps"
  let ?b1 = "fst (publish_all t ps b)"
  have log0: "topic_log b t = []" and subs0: "topic_subs b t = []"
    using fresh by (simp_all add: topic_log_def topic_subs_def)
  from publish_all_plain [OF t, of ps b]
  have p1: "publish_all t ps b = (?b1, Inr ?ms)"
    and b1: "topics ?b1 t = (if ps = [] then None else Some ?ms)" "subscribers ?b1 t = None"
      "sinks ?b1 = sinks b"
    by (simp_all add: log0 subs0 fresh deliver_none prod_eq_iff foldl_const)
  let ?c = "length (sinks b)"
  let ?b2 = "fst (subscribe_stream t ?b1)"
  have s: "subscribe_stream t ?b1 = (?b2, Inr ?c)"
    and b2: "topics ?b2 t = Some ?ms" "subscribers ?b2 t = Some [?c]"
      "sinks ?b2 = sinks b @ [map sse_frame ?ms]"
    using t b1 by (cases ps; simp add: subscribe_stream_def init_topic_def slot_plain Let_def)+
  let ?b3 = "fst (publish_all t qs ?b2)"
  have log2: "topic_log ?b2 t = ?ms" and subs2: "topic_subs ?b2 t = [?c]"
    using b2 by (simp_all add: topic_log_def topic_subs_def)
  from publish_all_plain [OF t, of qs ?b2]
  have p2: "publish_all t qs ?b2 = (?b3, Inr (msgs_from (length ps) qs))"
    and b3: "topics ?b3 t = Some (msgs_from 0 (ps @ qs))"
      "sinks ?b3 ! ?c = map sse_frame (msgs_from 0 (ps @ qs))"
    by (simp_all add: log2 subs2 b2 length_msgs_from msgs_from_append deliver_all_one prod_eq_iff)
  from p1 s b2 p2 b3 show ?thesis by (intro exI conjI) simp_all
qed


lemma late_subscriber_example:
  "\<exists>b1 b2 b3 c.
     publish_all ''payments'' [(JStr ''a'', ''t1''), (JStr ''b'', ''t2'')] bus0 =
       (b1, Inr (msgs_from 0 [(JStr ''a'', ''t1''), (JStr ''b'', ''t2'')])) \<and>
     subscribe_stream ''payments'' b1 = (b2, Inr c) \<and>
     sinks b2 ! c = map sse_frame (msgs_from 0 [(JStr ''a'', ''t1''), (JStr ''b'', ''t2'')]) \<and>
     publish_all ''payments'' [(JStr ''c'', ''t3'')] b2 =
       (b3, Inr (msgs_from (length [(JStr ''a'', ''t1''), (JStr ''b'', ''t2'')])
          [(JStr ''c'', ''t3'')])) \<and>
     topics b3 ''payments'' =
       Some (msgs_from 0 ([(JStr ''a'', ''t1''), (JStr ''b'', ''t2'')] @ [(JStr ''c'', ''t3'')])) \<and>
     sinks b3 ! c =
       map sse_frame
         (msgs_from 0 ([(JStr ''a'', ''t1''), (JStr ''b'', ''t2'')] @ [(JStr ''c'', ''t3'')]))"
  by (rule late_subscriber) (simp_all add: inherited_def proto_names_def bus0_def)

section \<open>Properties of the transform pipeline\<close>











section \<open>Properties of the directory watcher\<close>

lemma fire_fields:
  "timers (fire tm w) = timers w" "disk (fire tm w) = disk w" "clock (fire tm w) = clock w"
  by (cases tm; simp)+

lemma fire_calls:
  "count_list (calls (fire tm w)) fp =
     count_list (calls w) fp + (if tm = Settle fp \<and> disk w fp then 1 else 0)"
  by (cases tm) auto

lemma foldl_fire_fields:
  "timers (foldl (\<lambda>acc p. fire (snd p) acc) w ts) = timers w"
  "disk (foldl (\<lambda>acc p. fire (snd p) acc) w ts) = disk w"
  "clock (foldl (\<lambda>acc p. fire (snd p) acc) w ts) = clock w"
  by (induction ts arbitrary: w; simp add: fire_fields)+

lemma foldl_fire_calls:
  "count_list (calls (foldl (\<lambda>acc p. fire (snd p) acc) w ts)) fp =
     count_list (calls w) fp + (if disk w fp then settles_in fp ts else 0)"
  by (induction ts arbitrary: w) (simp_all add: fire_calls fire_fields settles_in_def)

lemma settles_in_sort: "settles_in fp (sort_key fst ts) = settles_in fp ts"
  by (simp add: settles_in_def filter_sort)

lemma settles_in_split:
  "settles_in fp (filter P ts) + settles_in fp (filter (\<lambda>p. \<not> P p) ts) = settles_in fp ts"
  by (induction ts) (simp_all add: settles_in_def)

lemma pending_settles_alt: "pending_settles fp w = settles_in fp (timers w)"
  by (simp add: pending_settles_def settles_in_def)

lemma advance_calls:
  "count_list (calls (advance t w)) fp =
     count_list (calls w) fp +
     (if disk w fp then settles_in fp (filter (\<lambda>p. fst p \<le> t) (timers w)) else 0)"
  by (simp add: advance_def foldl_fire_calls settles_in_sort)

lemma advance_timers: "timers (advance t w) = filter (\<lambda>p. \<not> fst p \<le> t) (timers w)"
  by (simp add: advance_def foldl_fire_fields)

lemma advance_measure:
  "count_list (calls (advance t w)) fp + pending_settles fp (advance t w) \<le>
   count_list (calls w) fp + pending_settles fp w"
  using settles_in_split [of fp "\<lambda>p. fst p \<le> t" "timers w"]
  by (simp add: advance_calls advance_timers pending_settles_alt)

lemma path_not_inherited: "\<not> inherited (dir @ ''/'' @ name)"
proof
  assume "inherited (dir @ ''/'' @ name)"
  then have "dir @ ''/'' @ name \<in> set proto_names" by (simp add: inherited_def)
  moreover have "\<forall>k \<in> set proto_names. CHR ''/'' \<notin> set k"
    by (simp add: proto_names_def)
  ultimately have "CHR ''/'' \<notin> set (dir @ ''/'' @ name)" by blast
  then show False by simp
qed

lemma on_change_measure:
  assumes "notifies dir fp (Notify ev fn) \<Longrightarrow> fp \<in> debounce w"
  shows "calls (on_change dir ev fn w) = calls w"
    and "pending_settles fp (on_change dir ev fn w) = pending_settles fp w"
  using assms
  by (auto simp: on_change_def notifies_def pending_settles_def Let_def split: option.splits)

lemma step_measure:
  assumes "notifies dir fp (snd e) \<Longrightarrow> fp \<in> debounce (advance (fst e) w)"
  shows "count_list (calls (step dir w e)) fp + pending_settles fp (step dir w e) \<le>
         count_list (calls w) fp + pending_settles fp w"
proof (cases "snd e")
  case (Notify ev fn)
  with assms have "notifies dir fp (Notify ev fn) \<Longrightarrow> fp \<in> debounce (advance (fst e) w)"
    by simp
  from on_change_measure [OF this] advance_measure [of "fst e" w fp] Notify
  show ?thesis by (simp add: step_def Let_def)
next
  case (Appears p)
  with advance_measure [of "fst e" w fp] show ?thesis
    by (simp add: step_def pending_settles_def Let_def)
next
  case (Vanishes p)
  with advance_measure [of "fst e" w fp] show ?thesis
    by (simp add: step_def pending_settles_def Let_def)
qed

lemma run_measure:
  "flag_held dir fp es w \<Longrightarrow>
   count_list (calls (run_trace dir es w)) fp + pending_settles fp (run_trace dir es w) \<le>
   count_list (calls w) fp + pending_settles fp w"
proof (induction es arbitrary: w)
  case Nil
  show ?case by (simp add: run_trace_def)
next
  case (Cons e es)
  from Cons.prems have a: "notifies dir fp (snd e) \<Longrightarrow> fp \<in> debounce (advance (fst e) w)"
    and b: "flag_held dir fp es (step dir w e)"
    by (simp_all split: if_splits)
  from Cons.IH [OF b] step_measure [of dir fp e w, OF a] show ?case
    by (simp add: run_trace_def)
qed

lemma first_notification:
  assumes "notifies dir fp (Notify ev fn)" "fp \<notin> debounce w"
  shows "calls (on_change dir ev fn w) = calls w"
    and "pending_settles fp (on_change dir ev fn w) = Suc (pending_settles fp w)"
    and "fp \<in> debounce (on_change dir ev fn w)"
  using assms path_not_inherited
  by (auto simp: on_change_def notifies_def pending_settles_def Let_def split: option.splits)


lemma foldl_fire_debounce:
  "debounce (foldl (\<lambda>acc p. fire (snd p) acc) w ts) =
     debounce w - {k. \<exists>d. (d, ClearFlag k) \<in> set ts}"
proof (induction ts arbitrary: w)
  case Nil
  show ?case by simp
next
  case (Cons p ts)
  obtain d tm where p: "p = (d, tm)" by (cases p)
  show ?case
    by (cases tm) (auto simp: Cons.IH p)
qed

lemma advance_debounce:
  "debounce (advance t w) = debounce w - {k. \<exists>d. d \<le> t \<and> (d, ClearFlag k) \<in> set (timers w)}"
  by (auto simp: advance_def foldl_fire_debounce)

lemma filter_le_one_mem:
  assumes "length (filter P xs) \<le> 1" "x \<in> set xs" "y \<in> set xs" "P x" "P y"
  shows "x = y"
proof (rule ccontr)
  assume "x \<noteq> y"
  with assms(2-5) have "x \<in> set (filter P xs)" "y \<in> set (filter P xs)" by simp_all
  with \<open>x \<noteq> y\<close> have "2 \<le> card (set (filter P xs))"
    by (metis card_2_iff' card_mono finite_set insert_subset empty_subsetI card_2_iff)
  also have "\<dots> \<le> length (filter P xs)" by (rule card_length)
  finally show False using assms(1) by simp
qed

lemma watcher_inv_advance: "watcher_inv w \<Longrightarrow> watcher_inv (advance t w)"
proof -
  assume inv: "watcher_inv w"
  have one: "length (filter (\<lambda>p. snd p = ClearFlag k) (timers w)) \<le> 1" for k
    using inv by (simp add: watcher_inv_def)
  have a: "k \<in> debounce (advance t w)" if "(d, ClearFlag k) \<in> set (timers (advance t w))" for d k
  proof -
    from that have m: "(d, ClearFlag k) \<in> set (timers w)" and late: "\<not> d \<le> t"
      by (simp_all add: advance_timers)
    from inv m have "k \<in> debounce w" by (auto simp: watcher_inv_def)
    moreover have "\<not> d' \<le> t" if "(d', ClearFlag k) \<in> set (timers w)" for d'
      using filter_le_one_mem [OF one [of k] that m] late by simp
    ultimately show ?thesis by (auto simp: advance_debounce)
  qed
  have b: "length (filter (\<lambda>p. snd p = ClearFlag k) (timers (advance t w))) \<le> 1" for k
  proof -
    have "filter (\<lambda>p. snd p = ClearFlag k) (timers (advance t w)) =
          filter (\<lambda>p. \<not> fst p \<le> t) (filter (\<lambda>p. snd p = ClearFlag k) (timers w))"
      by (simp add: advance_timers conj_commute)
    then have "length (filter (\<lambda>p. snd p = ClearFlag k) (timers (advance t w))) \<le>
          length (filter (\<lambda>p. snd p = ClearFlag k) (timers w))"
      by (metis length_filter_le)
    with one [of k] show ?thesis by linarith
  qed
  have c: "(d + 700, ClearFlag k) \<in> set (timers (advance t w))"
    if "(d, Settle k) \<in> set (timers (advance t w))" for d k
    using that inv by (auto simp: advance_timers watcher_inv_def)
  from a b c show ?thesis unfolding watcher_inv_def by blast
qed

lemma watcher_inv_on_change: "watcher_inv w \<Longrightarrow> watcher_inv (on_change dir ev fn w)"
proof -
  assume inv: "watcher_inv w"
  have none: "filter (\<lambda>p. snd p = ClearFlag k) (timers w) = []" if "k \<notin> debounce w" for k
    using inv that by (auto simp: watcher_inv_def filter_empty_conv)
  show ?thesis
    using inv none
    by (auto simp: on_change_def watcher_inv_def Let_def split: option.splits)
qed

lemma watcher_inv_step: "watcher_inv w \<Longrightarrow> watcher_inv (step dir w e)"
proof -
  assume "watcher_inv w"
  then have a: "watcher_inv (advance (fst e) w)" by (rule watcher_inv_advance)
  show ?thesis
  proof (cases "snd e")
    case (Notify ev fn)
    with watcher_inv_on_change [OF a] show ?thesis by (simp add: step_def Let_def)
  next
    case (Appears p)
    with a show ?thesis by (simp add: step_def Let_def watcher_inv_def)
  next
    case (Vanishes p)
    with a show ?thesis by (simp add: step_def Let_def watcher_inv_def)
  qed
qed

lemma watcher_inv_run: "watcher_inv w \<Longrightarrow> watcher_inv (run_trace dir es w)"
  unfolding run_trace_def
  by (induction es arbitrary: w) (simp_all add: watcher_inv_step)

lemma watcher_inv0: "watcher_inv watcher0"
  by (simp add: watcher_inv_def watcher0_def)

lemma unset_flag_no_settle:
  assumes "watcher_inv w" "fp \<notin> debounce w"
  shows "pending_settles fp w = 0"
proof -
  have "\<not> (\<exists>d. (d, Settle fp) \<in> set (timers w))"
  proof
    assume "\<exists>d. (d, Settle fp) \<in> set (timers w)"
    then obtain d where "(d, Settle fp) \<in> set (timers w)" ..
    with assms(1) have "(d + 700, ClearFlag fp) \<in> set (timers w)"
      unfolding watcher_inv_def by blast
    with assms(1) have "fp \<in> debounce w"
      unfolding watcher_inv_def by blast
    with assms(2) show False by simp
  qed
  then show ?thesis
    by (auto simp: pending_settles_def filter_empty_conv)
qed

text \<open>
  Claim C9: in every state the watcher can reach, when a raw notification for a path
  arrives with the path's debounce flag unset, and every further raw notification for
  that path arrives while the flag is set, the handler is called for that path at most
  once more, however far time advances; and the handler is not called for a path that is
  not a regular file at the moment the timers run (the guard is evaluated then, and a
  missing file ends the callback without a call and without an exception).
\<close>

theorem debounced_burst_one_call:
  "(notifies dir fp (Notify ev fn) \<and>
    fp \<notin> debounce (advance t1 (run_trace dir past watcher0)) \<and>
    flag_held dir fp es (step dir (run_trace dir past watcher0) (t1, Notify ev fn)) \<longrightarrow>
      count_list (calls (advance t (run_trace dir (past @ (t1, Notify ev fn) # es) watcher0))) fp \<le>
        Suc (count_list (calls (advance t1 (run_trace dir past watcher0))) fp)) \<and>
   (\<not> disk w fp \<longrightarrow> count_list (calls (advance t w)) fp = count_list (calls w) fp)"
proof (intro conjI impI)
  let ?w = "advance t1 (run_trace dir past watcher0)"
  let ?w1 = "on_change dir ev fn ?w"
  let ?w2 = "run_trace dir es ?w1"
  assume a: "notifies dir fp (Notify ev fn) \<and> fp \<notin> debounce ?w \<and>
     flag_held dir fp es (step dir (run_trace dir past watcher0) (t1, Notify ev fn))"
  have s: "step dir (run_trace dir past watcher0) (t1, Notify ev fn) = ?w1"
    by (simp add: step_def)
  have r: "run_trace dir (past @ (t1, Notify ev fn) # es) watcher0 = ?w2"
    by (simp add: run_trace_def s [unfolded run_trace_def])
  have "watcher_inv ?w"
    by (intro watcher_inv_advance watcher_inv_run watcher_inv0)
  with a have p0: "pending_settles fp ?w = 0"
    by (simp add: unset_flag_no_settle)
  from a first_notification [of dir fp ev fn ?w] p0
  have "count_list (calls ?w1) fp + pending_settles fp ?w1 = Suc (count_list (calls ?w) fp)"
    by simp
  moreover from a run_measure [of dir fp es ?w1]
  have "count_list (calls ?w2) fp + pending_settles fp ?w2 \<le>
        count_list (calls ?w1) fp + pending_settles fp ?w1"
    by (simp add: s)
  moreover note advance_measure [of t ?w2 fp]
  ultimately show "count_list (calls (advance t
      (run_trace dir (past @ (t1, Notify ev fn) # es) watcher0))) fp \<le> Suc (count_list (calls ?w) fp)"
    unfolding r by linarith
next
  assume "\<not> disk w fp"
  then show "count_list (calls (advance t w)) fp = count_list (calls w) fp"
    by (simp add: advance_calls)
qed

theorem debounced_burst_one_call_witness:
  "count_list (calls (advance 5000 (run_trace ''input''
      ([(0, Appears ''input/a.csv'')] @ (1000, Notify ''rename'' (Some ''a.csv'')) # burst)
      watcher0))) ''input/a.csv'' \<le>
     Suc (count_list (calls (advance 1000 (run_trace ''input'' [(0, Appears ''input/a.csv'')]
        watcher0))) ''input/a.csv'') \<and>
   count_list (calls (advance 5000 watcher0)) ''input/a.csv'' =
     count_list (calls watcher0) ''input/a.csv''"
proof -
  have h: "notifies ''input'' ''input/a.csv'' (Notify ''rename'' (Some ''a.csv'')) \<and>
      ''input/a.csv'' \<notin> debounce (advance 1000 (run_trace ''input'' [(0, Appears ''input/a.csv'')]
          watcher0)) \<and>
      flag_held ''input'' ''input/a.csv'' burst
        (step ''input'' (run_trace ''input'' [(0, Appears ''input/a.csv'')] watcher0)
           (1000, Notify ''rename'' (Some ''a.csv'')))"
    by code_simp
  have d: "\<not> disk watcher0 ''input/a.csv''"
    by (simp add: watcher0_def)
  from debounced_burst_one_call [where dir = "''input''" and fp = "''input/a.csv''"
      and ev = "''rename''" and fn = "Some ''a.csv''" and ?t1.0 = 1000
      and past = "[(0, Appears ''input/a.csv'')]" and es = burst and t = 5000 and w = watcher0]
    h d
  show ?thesis by blast
qed

text \<open>
  Three raw notifications within the settle window give one call; a file that vanishes
  before the settle delay has elapsed gives none.
\<close>

lemma burst_calls_once:
  "calls (advance 5000 (run_trace ''input''
      ([(0, Appears ''input/a.csv'')] @ (1000, Notify ''rename'' (Some ''a.csv'')) # burst)
      watcher0)) = [''input/a.csv'']"
  by code_simp

lemma deleted_before_settle:
  "calls (advance 5000 (run_trace ''input''
      [(0, Appears ''input/a.csv''), (1000, Notify ''rename'' (Some ''a.csv'')),
       (1100, Vanishes ''input/a.csv'')] watcher0)) = []"
  by code_simp


section \<open>Properties of the parsers\<close>

lemma consumedI_Inl: "json_error e \<Longrightarrow> consumed (Inl e) k"
  by (simp add: consumed_def)


lemma consumed_cons_char: "consumed r k \<Longrightarrow> consumed (cons_char c r) k"
  by (auto simp: consumed_def cons_char_def split: sum.splits)

lemma json_error_simps [simp]: "json_error (SyntaxError m)" "json_error (Unmodelled ''code unit above 255'')"
  by (simp_all add: json_error_def)





















section \<open>Properties of the delimited-text parser\<close>

lemma js_trim_Nil [simp]: "js_trim [] = []"
  by (simp add: js_trim_def)

lemma js_trim_space_Cons: "is_space w \<Longrightarrow> js_trim (w # s) = js_trim s"
  by (simp add: js_trim_def)

lemma dropWhile_snoc_space:
  "is_space w \<Longrightarrow> dropWhile is_space (rev (dropWhile is_space (s @ [w]))) =
     dropWhile is_space (rev (dropWhile is_space s))"
  by (induction s) simp_all

lemma js_trim_space_snoc: "is_space w \<Longrightarrow> js_trim (s @ [w]) = js_trim s"
  by (simp add: js_trim_def dropWhile_snoc_space)

lemma all_dropWhile_iff: "(\<forall>x\<in>set (dropWhile P s). P x) \<longleftrightarrow> dropWhile P s = []"
proof
  assume a: "\<forall>x\<in>set (dropWhile P s). P x"
  show "dropWhile P s = []"
  proof (rule ccontr)
    assume n: "dropWhile P s \<noteq> []"
    then have "hd (dropWhile P s) \<in> set (dropWhile P s)" by simp
    with a have "P (hd (dropWhile P s))" by blast
    with hd_dropWhile [OF n] show False by simp
  qed
next
  assume e: "dropWhile P s = []"
  show "\<forall>x\<in>set (dropWhile P s). P x" unfolding e by simp
qed

lemma js_trim_empty_iff: "js_trim s = [] \<longleftrightarrow> list_all is_space s"
  by (simp add: js_trim_def dropWhile_eq_Nil_conv all_dropWhile_iff list_all_iff)

lemma js_trim_blank: "list_all is_space s \<Longrightarrow> js_trim s = []"
  by (simp add: js_trim_empty_iff)

lemma split_on_nonempty [simp]: "split_on c s \<noteq> []"
  by (induction s) (auto split: list.splits)

lemma split_lines_nonempty [simp]: "split_lines s \<noteq> []"
  by (induction s rule: split_lines.induct) (auto split: list.splits)

lemma split_on_Cons_sep: "split_on c (c # s) = [] # split_on c s"
  by simp

lemma split_on_Cons_other:
  "x \<noteq> c \<Longrightarrow> split_on c (x # s) = (x # hd (split_on c s)) # tl (split_on c s)"
  by (cases "split_on c s") simp_all

lemma split_on_snoc:
  "split_on c (s @ [x]) =
     (if x = c then split_on c s @ [[]]
      else butlast (split_on c s) @ [last (split_on c s) @ [x]])"
proof (induction s)
  case Nil
  show ?case by simp
next
  case (Cons y s)
  show ?case
  proof (cases "y = c")
    case True
    with Cons show ?thesis by (simp add: butlast_append)
  next
    case False
    obtain l ls where sp: "split_on c s = l # ls" by (cases "split_on c s") simp_all
    obtain l' ls' where sp': "split_on c (s @ [x]) = l' # ls'"
      by (cases "split_on c (s @ [x])") simp_all
    from Cons sp sp' False show ?thesis
      by (cases ls) (auto split: if_splits)
  qed
qed

lemma keep_lines_Cons: "keep_lines (l # ls) = (if js_trim l = [] then keep_lines ls else js_trim l # keep_lines ls)"
  by (simp add: keep_lines_def)

lemma keep_lines_append: "keep_lines (xs @ ys) = keep_lines xs @ keep_lines ys"
  by (simp add: keep_lines_def)

lemma space_simps [simp]: "is_space (CHR 0x0D)" "is_space (CHR 0x0A)" "\<not> is_space (CHR '','')"
  by (simp_all add: is_space_def)

lemma cr_fix_Cons: "ls \<noteq> [] \<Longrightarrow> cr_fix (l # ls) = strip_cr l # cr_fix ls"
  by (cases ls) simp_all

lemma strip_cr_Cons: "l \<noteq> [] \<Longrightarrow> strip_cr (c # l) = c # strip_cr l"
  by (simp add: strip_cr_def)

lemma split_lines_cr_fix: "split_lines s = cr_fix (split_on (CHR 0x0A) s)"
proof (induction s rule: split_lines.induct)
  case 1
  show ?case by simp
next
  case (2 c s)
  show ?case
  proof (cases "c = CHR 0x0A")
    case True
    with 2 show ?thesis by (simp add: cr_fix_Cons strip_cr_def)
  next
    case nolf: False
    show ?thesis
    proof (cases "c = CHR 0x0D \<and> s \<noteq> [] \<and> hd s = CHR 0x0A")
      case True
      then obtain s' where s: "s = CHR 0x0A # s'" by (cases s) auto
      from True nolf 2(2) have "split_lines (tl s) = cr_fix (split_on (CHR 0x0A) (tl s))"
        by simp
      with True s show ?thesis
        by (simp add: cr_fix_Cons strip_cr_def)
    next
      case False
      obtain l' ls' where b: "split_on (CHR 0x0A) s = l' # ls'"
        by (cases "split_on (CHR 0x0A) s") simp_all
      from False nolf 2(3) have ih: "split_lines s = cr_fix (split_on (CHR 0x0A) s)"
        by simp
      show ?thesis
      proof (cases ls')
        case Nil
        with b ih nolf False show ?thesis by simp
      next
        case (Cons m ms)
        have cr: "strip_cr (c # l') = c # strip_cr l'"
        proof (cases l')
          case Nil
          with b Cons have "s \<noteq> [] \<and> hd s = CHR 0x0A"
            by (cases s) (auto split: if_splits list.splits)
          with False have "c \<noteq> CHR 0x0D" by simp
          with Nil show ?thesis by (simp add: strip_cr_def)
        next
          case (Cons x xs)
          then show ?thesis by (simp add: strip_cr_Cons)
        qed
        from b Cons ih nolf False cr show ?thesis by simp
      qed
    qed
  qed
qed

lemma js_trim_strip_cr: "js_trim (strip_cr l) = js_trim l"
proof (cases "l \<noteq> [] \<and> last l = CHR 0x0D")
  case True
  then have "l = butlast l @ [CHR 0x0D]" by (metis append_butlast_last_id)
  then have "js_trim l = js_trim (butlast l)"
    by (metis js_trim_space_snoc space_simps(1))
  with True show ?thesis by (simp add: strip_cr_def)
next
  case False
  then show ?thesis by (auto simp: strip_cr_def)
qed

lemma keep_lines_cr_fix: "keep_lines (cr_fix ls) = keep_lines ls"
  by (induction ls rule: cr_fix.induct) (simp_all add: keep_lines_Cons js_trim_strip_cr)

lemma keep_split_lines: "keep_lines (split_lines s) = keep_lines (split_on (CHR 0x0A) s)"
  by (simp add: split_lines_cr_fix keep_lines_cr_fix)

text \<open>Trimming the text first changes no kept line.\<close>

lemma keep_split_space_Cons:
  "is_space w \<Longrightarrow> keep_lines (split_on (CHR 0x0A) (w # s)) = keep_lines (split_on (CHR 0x0A) s)"
  by (cases "split_on (CHR 0x0A) s")
     (auto simp: keep_lines_Cons js_trim_space_Cons)

lemma keep_split_dropWhile:
  "keep_lines (split_on (CHR 0x0A) (dropWhile is_space s)) = keep_lines (split_on (CHR 0x0A) s)"
  by (induction s) (simp_all add: keep_split_space_Cons del: split_on.simps)

lemma keep_split_space_snoc:
  assumes "is_space w"
  shows "keep_lines (split_on (CHR 0x0A) (s @ [w])) = keep_lines (split_on (CHR 0x0A) s)"
proof -
  let ?ls = "split_on (CHR 0x0A) s"
  have ls: "?ls = butlast ?ls @ [last ?ls]" by simp
  show ?thesis
  proof (cases "w = CHR 0x0A")
    case True
    then show ?thesis by (simp add: split_on_snoc keep_lines_append keep_lines_Cons keep_lines_def)
  next
    case False
    have "keep_lines (split_on (CHR 0x0A) (s @ [w])) = keep_lines (butlast ?ls @ [last ?ls @ [w]])"
      using False by (simp add: split_on_snoc)
    also have "\<dots> = keep_lines (butlast ?ls) @ keep_lines [last ?ls @ [w]]"
      by (simp only: keep_lines_append)
    also have "keep_lines [last ?ls @ [w]] = keep_lines [last ?ls]"
      by (simp add: keep_lines_def js_trim_space_snoc [OF assms])
    also have "keep_lines (butlast ?ls) @ keep_lines [last ?ls] = keep_lines (butlast ?ls @ [last ?ls])"
      by (simp only: keep_lines_append)
    also have "\<dots> = keep_lines ?ls"
      by (simp only: append_butlast_last_id [OF split_on_nonempty])
    finally show ?thesis .
  qed
qed

lemma keep_split_rev_dropWhile:
  "keep_lines (split_on (CHR 0x0A) (rev (dropWhile is_space (rev s)))) =
     keep_lines (split_on (CHR 0x0A) s)"
  by (induction s rule: rev_induct) (simp_all add: keep_split_space_snoc del: split_on.simps)

lemma keep_lines_trim:
  "keep_lines (split_lines (js_trim s)) = keep_lines (split_lines s)"
  by (simp add: keep_split_lines js_trim_def keep_split_rev_dropWhile keep_split_dropWhile)


text \<open>Trimming a line first changes no cell.\<close>

lemma cells_space_Cons:
  "is_space w \<Longrightarrow> \<not> is_space c \<Longrightarrow>
   map js_trim (split_on c (w # s)) = map js_trim (split_on c s)"
  by (cases "split_on c s") (auto simp: js_trim_space_Cons)

lemma cells_dropWhile:
  "\<not> is_space c \<Longrightarrow> map js_trim (split_on c (dropWhile is_space s)) = map js_trim (split_on c s)"
  by (induction s) (simp_all add: cells_space_Cons del: split_on.simps)

lemma cells_space_snoc:
  assumes "is_space w" "\<not> is_space c"
  shows "map js_trim (split_on c (s @ [w])) = map js_trim (split_on c s)"
proof -
  let ?ls = "split_on c s"
  from assms have "w \<noteq> c" by auto
  then have "map js_trim (split_on c (s @ [w])) = map js_trim (butlast ?ls @ [last ?ls @ [w]])"
    by (simp add: split_on_snoc)
  also have "\<dots> = map js_trim (butlast ?ls) @ [js_trim (last ?ls)]"
    by (simp add: js_trim_space_snoc [OF assms(1)])
  also have "\<dots> = map js_trim (butlast ?ls @ [last ?ls])"
    by (simp only: map_append list.map)
  also have "\<dots> = map js_trim ?ls"
    by (simp only: append_butlast_last_id [OF split_on_nonempty])
  finally show ?thesis .
qed

lemma cells_rev_dropWhile:
  "\<not> is_space c \<Longrightarrow>
   map js_trim (split_on c (rev (dropWhile is_space (rev s)))) = map js_trim (split_on c s)"
  by (induction s rule: rev_induct) (simp_all add: cells_space_snoc del: split_on.simps)

lemma cells_trim:
  "\<not> is_space c \<Longrightarrow> map js_trim (split_on c (js_trim s)) = map js_trim (split_on c s)"
  by (simp add: js_trim_def cells_rev_dropWhile cells_dropWhile)


lemma pad_to_nth:
  "map (\<lambda>i. if i < length vs then vs ! i else []) [0 ..< n] = pad_to n vs"
  by (rule nth_equalityI) (auto simp: pad_to_def nth_append)

lemma csv_row_spec:
  "csv_row hs line = record_of (zip hs (pad_to (length hs) (csv_cells (js_trim line))))"
proof -
  let ?vals = "map js_trim (split_on (CHR '','') line)"
  have "zip hs (pad_to (length hs) ?vals) =
        map (\<lambda>hi. (fst hi, if snd hi < length ?vals then ?vals ! snd hi else []))
          (zip hs [0 ..< length hs])"
    unfolding pad_to_nth [symmetric]
    by (simp add: zip_map2 case_prod_beta)
  then have "record_of (zip hs (pad_to (length hs) ?vals)) = csv_row hs line"
    by (simp add: record_of_def csv_row_def Let_def foldl_map)
  then show ?thesis
    by (simp add: csv_cells_def cells_trim)
qed


section \<open>Properties of the round trips\<close>

subsection \<open>Rebuilding an object field by field\<close>

lemma wf_keys_append: "wf_keys (xs @ ys) \<Longrightarrow> wf_keys xs"
  by (simp add: wf_keys_def sorted_wrt_append)

lemma obj_insert_index_append:
  "list_all (\<lambda>p. is_array_index (fst p) \<and> dec_val (fst p) < dec_val k) acc \<Longrightarrow>
   obj_insert_index k v acc = acc @ [(k, v)]"
  by (induction acc) auto

lemma obj_define_append:
  assumes "wf_keys (obj_keys (acc @ [(k, v)]))"
  shows "obj_define acc k v = acc @ [(k, v)]"
proof -
  from assms have new: "k \<notin> set (obj_keys acc)"
    and ord: "\<forall>k' \<in> set (obj_keys acc). key_before k' k"
    by (auto simp: wf_keys_def obj_keys_def sorted_wrt_append)
  show ?thesis
  proof (cases "is_array_index k")
    case True
    with ord have "list_all (\<lambda>p. is_array_index (fst p) \<and> dec_val (fst p) < dec_val k) acc"
      by (auto simp: key_before_def obj_keys_def list_all_iff)
    with new True show ?thesis
      by (simp add: obj_define_def obj_insert_index_append)
  next
    case False
    with new show ?thesis by (simp add: obj_define_def)
  qed
qed

lemma rebuild_define:
  "wf_keys (obj_keys (acc @ r)) \<Longrightarrow>
   foldl (\<lambda>ob p. obj_define ob (fst p) (snd p)) acc r = acc @ r"
proof (induction r arbitrary: acc)
  case Nil
  show ?case by simp
next
  case (Cons p r)
  from Cons.prems have "wf_keys (obj_keys ((acc @ [p]) @ r))" by simp
  from Cons.IH [OF this] have ih: "foldl (\<lambda>ob p. obj_define ob (fst p) (snd p)) (acc @ [p]) r = acc @ p # r"
    by simp
  from Cons.prems have "wf_keys (obj_keys (acc @ [(fst p, snd p)]))"
    using wf_keys_append [of "obj_keys (acc @ [p])" "obj_keys r"] by (simp add: obj_keys_def)
  then have "obj_define acc (fst p) (snd p) = acc @ [p]"
    by (simp add: obj_define_append)
  with ih show ?case by simp
qed

lemma rebuild_set:
  assumes "wf_keys (obj_keys r)" "''__proto__'' \<notin> set (obj_keys r)"
  shows "foldl (\<lambda>ob p. obj_set ob (fst p) (snd p)) [] r = r"
proof -
  have "foldl (\<lambda>ob p. obj_set ob (fst p) (snd p)) acc r =
        foldl (\<lambda>ob p. obj_define ob (fst p) (snd p)) acc r" for acc
    using assms(2)
    by (induction r arbitrary: acc) (auto simp: obj_set_def obj_keys_def)
  with rebuild_define [of "[]" r] assms(1) show ?thesis by simp
qed

subsection \<open>Delimited text: joining and splitting\<close>

lemma split_on_none: "c \<notin> set x \<Longrightarrow> split_on c x = [x]"
  by (induction x) auto

lemma split_on_append_sep: "c \<notin> set x \<Longrightarrow> split_on c (x @ c # s) = x # split_on c s"
  by (induction x) auto

lemma split_on_join:
  "ls \<noteq> [] \<Longrightarrow> list_all (\<lambda>l. c \<notin> set l) ls \<Longrightarrow> split_on c (join_strs [c] ls) = ls"
  by (induction "[c]" ls rule: join_strs.induct) (simp_all add: split_on_none split_on_append_sep)

lemma set_join_strs: "set (join_strs sep ls) \<subseteq> set sep \<union> \<Union> (set ` set ls)"
  by (induction sep ls rule: join_strs.induct) auto

lemma join_strs_two: "ls \<noteq> [] \<Longrightarrow> join_strs sep (l # ls) = l @ sep @ join_strs sep ls"
  by (cases ls) simp_all

lemma csv_cells_join:
  assumes "cells \<noteq> []" "list_all clean_cell cells"
  shows "csv_cells (join_strs '','' cells) = cells"
proof -
  from assms(2) have "list_all (\<lambda>l. CHR '','' \<notin> set l) cells"
    by (simp add: list_all_iff clean_cell_def)
  with assms(1) have "split_on (CHR '','') (join_strs '','' cells) = cells"
    by (rule split_on_join)
  moreover from assms(2) have "map js_trim cells = cells"
    by (induction cells) (simp_all add: clean_cell_def)
  ultimately show ?thesis by (simp add: csv_cells_def)
qed

lemma line_not_blank:
  assumes "cells \<noteq> []" "cells \<noteq> [[]]" "list_all clean_cell cells"
  shows "js_trim (join_strs '','' cells) \<noteq> []"
proof (cases cells)
  case Nil
  with assms show ?thesis by simp
next
  case (Cons c r)
  show ?thesis
  proof (cases r)
    case Nil
    with Cons assms show ?thesis by (simp add: clean_cell_def)
  next
    case (Cons d r')
    with \<open>cells = c # r\<close> have "CHR '','' \<in> set (join_strs '','' cells)" by simp
    then have "\<not> list_all is_space (join_strs '','' cells)"
      by (auto simp: list_all_iff intro!: bexI [of _ "CHR '',''"])
    then show ?thesis by (simp add: js_trim_empty_iff)
  qed
qed

lemma line_no_lf:
  assumes "list_all clean_cell cells"
  shows "CHR 0x0A \<notin> set (join_strs '','' cells)"
proof
  assume "CHR 0x0A \<in> set (join_strs '','' cells)"
  with set_join_strs [of "'',''" cells] obtain c where "c \<in> set cells" "CHR 0x0A \<in> set c"
    by auto
  with assms show False by (auto simp: list_all_iff clean_cell_def)
qed

lemma csv_cells_own:
  "distinct (map fst r) \<Longrightarrow> set ks \<subseteq> set (map fst r) \<Longrightarrow>
   map (csv_cell r) ks = map (\<lambda>k. join_cell (the (map_of r k))) ks"
  by (induction ks) (auto simp: csv_cell_def split: option.splits dest: map_of_eq_None_iff [THEN iffD1])

lemma map_of_keys_distinct:
  assumes "distinct (map fst r)"
  shows "map (\<lambda>k. the (map_of r k)) (map fst r) = map snd r"
proof -
  have "the (map_of r (fst p)) = snd p" if "p \<in> set r" for p
    using map_of_is_SomeI [OF assms, of "fst p" "snd p"] that by simp
  then show ?thesis by (simp add: comp_def)
qed

lemma row_cells:
  assumes "distinct (obj_keys r)"
  shows "map (csv_cell r) (obj_keys r) = cell_texts r"
proof -
  have "map (csv_cell r) (map fst r) = map (\<lambda>k. join_cell (the (map_of r k))) (map fst r)"
    by (rule csv_cells_own) (use assms in \<open>simp_all add: obj_keys_def\<close>)
  also have "\<dots> = map join_cell (map (\<lambda>k. the (map_of r k)) (map fst r))"
    by simp
  also have "\<dots> = map join_cell (map snd r)"
    using assms by (simp only: map_of_keys_distinct obj_keys_def)
  finally show ?thesis by (simp add: cell_texts_def obj_keys_def)
qed

lemma csvToRecords_lines:
  "csvToRecords csv =
     (let lines = keep_lines (split_on (CHR 0x0A) csv)
      in if length lines < 2 then [] else map (csv_row (csv_cells (hd lines))) (tl lines))"
  using keep_lines_trim [of csv]
  by (simp add: csvToRecords_def keep_lines_def [symmetric] keep_split_lines csv_cells_def Let_def)

lemma keep_lines_nonblank_all:
  "list_all (\<lambda>l. js_trim l \<noteq> []) ls \<Longrightarrow> keep_lines ls = map js_trim ls"
  by (induction ls) (simp_all add: keep_lines_def)

lemma clean_text_iff: "clean_text v \<longleftrightarrow> (\<exists>s. v = JStr s \<and> clean_cell s)"
  by (cases v) (simp_all add: clean_text_def)

lemma record_of_texts:
  assumes "wf_keys (obj_keys r)" "''__proto__'' \<notin> set (obj_keys r)"
    and "list_all clean_text (map snd r)"
  shows "record_of (zip (obj_keys r) (cell_texts r)) = r"
proof -
  have v: "JStr (join_cell (snd p)) = snd p" if "p \<in> set r" for p
    using assms(3) that
    by (auto simp: list_all_iff clean_text_iff join_cell_def)
  have "map (\<lambda>p. (fst p, JStr (snd p))) (zip (obj_keys r) (cell_texts r)) =
        map (\<lambda>p. (fst p, JStr (join_cell (snd p)))) r"
    by (simp add: obj_keys_def cell_texts_def zip_map_map zip_same_conv_map)
  also have "\<dots> = r"
    using v by (induction r) auto
  finally have "map (\<lambda>p. (fst p, JStr (snd p))) (zip (obj_keys r) (cell_texts r)) = r" .
  moreover have "record_of ps =
      foldl (\<lambda>ob p. obj_set ob (fst p) (snd p)) [] (map (\<lambda>p. (fst p, JStr (snd p))) ps)" for ps
    by (simp add: record_of_def foldl_map)
  ultimately show ?thesis
    using rebuild_set [OF assms(1,2)] by simp
qed

lemma clean_cell_texts:
  "list_all clean_text (map snd r) \<Longrightarrow> list_all clean_cell (cell_texts r)"
  by (auto simp: list_all_iff cell_texts_def clean_text_iff join_cell_def)

lemma cell_texts_not_blank:
  "list_all clean_text (map snd r) \<Longrightarrow> map snd r \<noteq> [JStr []] \<Longrightarrow> cell_texts r \<noteq> [[]]"
  by (cases r) (auto simp: cell_texts_def clean_text_iff join_cell_def)

lemma csv_roundtrip:
  assumes "csv_ok rs"
  shows "csvToRecords (recordsToCsv rs) = rs"
proof (cases rs)
  case Nil
  then show ?thesis
    by (simp add: recordsToCsv_def csvToRecords_lines keep_lines_def)
next
  case (Cons r0 rest)
  define hs where "hs = obj_keys r0"
  from assms Cons have hs: "hs \<noteq> []" "hs \<noteq> [[]]" "wf_keys hs" "''__proto__'' \<notin> set hs"
      "list_all clean_cell hs"
    and all: "\<And>r. r \<in> set rs \<Longrightarrow> obj_keys r = hs \<and> list_all clean_text (map snd r) \<and>
        map snd r \<noteq> [JStr []]"
    by (auto simp: csv_ok_def hs_def list_all_iff)
  define row where "row r = join_strs '','' (cell_texts r)" for r
  have cells: "map (csv_cell r) hs = cell_texts r" if "r \<in> set rs" for r
    using row_cells [of r] all [OF that] hs(3) by (simp add: wf_keys_def)
  have out: "recordsToCsv rs = join_strs nl (join_strs '','' hs # map row rs)"
    using Cons cells by (simp add: recordsToCsv_def hs_def [symmetric] row_def Let_def cong: map_cong)
  have rcells: "cell_texts r \<noteq> []" "cell_texts r \<noteq> [[]]" "list_all clean_cell (cell_texts r)"
      "length (cell_texts r) = length hs" if "r \<in> set rs" for r
    using all [OF that] hs(1) clean_cell_texts [of r] cell_texts_not_blank [of r]
    by (auto simp: cell_texts_def obj_keys_def dest: arg_cong [where f = length])
  have nolf: "list_all (\<lambda>l. CHR 0x0A \<notin> set l) (join_strs '','' hs # map row rs)"
    using line_no_lf [OF hs(5)] line_no_lf [OF rcells(3)]
    by (simp add: list_all_iff row_def)
  have lines: "split_on (CHR 0x0A) (recordsToCsv rs) = join_strs '','' hs # map row rs"
    unfolding out nl_def by (rule split_on_join) (use nolf in simp_all)
  have nonblank: "list_all (\<lambda>l. js_trim l \<noteq> []) (join_strs '','' hs # map row rs)"
    using line_not_blank [OF hs(1,2,5)] line_not_blank [OF rcells(1,2,3)]
    by (simp add: list_all_iff row_def)
  have kept: "keep_lines (split_on (CHR 0x0A) (recordsToCsv rs)) =
      js_trim (join_strs '','' hs) # map (\<lambda>r. js_trim (row r)) rs"
    by (simp add: lines keep_lines_nonblank_all [OF nonblank] comp_def)
  have header: "csv_cells (js_trim (join_strs '','' hs)) = hs"
    by (simp add: csv_cells_def cells_trim csv_cells_join [OF hs(1,5), unfolded csv_cells_def])
  have one: "csv_row hs (js_trim (row r)) = r" if "r \<in> set rs" for r
  proof -
    have "csv_cells (js_trim (js_trim (row r))) = cell_texts r"
      using csv_cells_join [OF rcells(1,3) [OF that]]
      by (simp add: csv_cells_def cells_trim row_def)
    then have "csv_row hs (js_trim (row r)) = record_of (zip hs (pad_to (length hs) (cell_texts r)))"
      by (simp add: csv_row_spec)
    also have "pad_to (length hs) (cell_texts r) = cell_texts r"
      using rcells(4) [OF that] by (simp add: pad_to_def)
    also have "record_of (zip hs (cell_texts r)) = r"
      using record_of_texts [of r] all [OF that] hs(3,4) by simp
    finally show ?thesis .
  qed
  have two: "\<not> length (js_trim (join_strs '','' hs) # map (\<lambda>r. js_trim (row r)) rs) < 2"
    using Cons by simp
  have "csvToRecords (recordsToCsv rs) = map (\<lambda>r. csv_row hs (js_trim (row r))) rs"
    unfolding csvToRecords_lines kept Let_def
    by (simp only: two if_False list.sel header map_map comp_def)
  also have "\<dots> = rs"
    using one by (induction rs) simp_all
  finally show ?thesis .
qed

subsection \<open>Tagged markup: searching\<close>

lemma starts_with_self: "starts_with ci p (p @ s)"
  by (induction p) simp_all

lemma starts_with_first: "\<not> ch_match ci x c \<Longrightarrow> \<not> starts_with ci (x # p) (c # s)"
  by (simp add: ch_match_def)

lemma find_sub_skip1:
  "\<not> starts_with ci pat (c # s) \<Longrightarrow>
   find_sub ci pat (c # s) = map_option (\<lambda>q. (c # fst q, snd q)) (find_sub ci pat s)"
  by (simp add: map_option_case)

lemma find_sub_skip:
  "list_all (\<lambda>c. \<not> ch_match ci x c) a \<Longrightarrow>
   find_sub ci (x # p) (a @ s) = map_option (\<lambda>q. (a @ fst q, snd q)) (find_sub ci (x # p) s)"
proof (induction a)
  case Nil
  show ?case by (simp add: option.map_ident)
next
  case (Cons c a)
  then have "\<not> starts_with ci (x # p) (c # a @ s)"
    by (simp add: ch_match_def)
  from find_sub_skip1 [OF this] Cons show ?case
    by (simp add: option.map_comp comp_def del: find_sub.simps)
qed

lemma find_sub_here:
  "pat \<noteq> [] \<Longrightarrow> find_sub ci pat (pat @ s) = Some ([], s)"
  by (cases pat) (simp_all add: starts_with_self [of ci _ s, simplified])

lemma case_code_lt: "case_code (CHR ''<'') = 60" and case_code_gt: "case_code (CHR ''>'') = 62"
  and case_code_slash: "case_code (CHR ''/'') = 47"
  by (simp_all add: case_code_def)

lemma of_char_60: "(of_char c :: nat) = 60 \<longleftrightarrow> c = CHR ''<''"
proof -
  have "(of_char c :: nat) = of_char (CHR ''<'') \<longleftrightarrow> c = CHR ''<''"
    by (rule of_char_eq_iff)
  then show ?thesis by simp
qed

lemma case_code_eq_lt: "case_code c = 60 \<longleftrightarrow> c = CHR ''<''"
  using of_char_60 [of c] by (auto simp: case_code_def Let_def)

lemma no_lt_match: "c \<noteq> CHR ''<'' \<Longrightarrow> \<not> ch_match ci (CHR ''<'') c"
  by (auto simp: ch_match_def case_code_lt case_code_eq_lt dest: sym)

lemma word_code: "is_word c \<Longrightarrow> case_code c \<noteq> 47 \<and> case_code c \<noteq> 60 \<and> case_code c \<noteq> 62"
  by (auto simp: is_word_def case_code_def Let_def split: if_splits)

lemma word_chars: "is_word c \<Longrightarrow> c \<noteq> CHR ''<'' \<and> c \<noteq> CHR ''>'' \<and> c \<noteq> CHR ''/''"
  by (auto simp: is_word_def)

lemma not_word_gt [simp]: "\<not> is_word (CHR ''>'')"
  by (simp add: is_word_def)

lemma tag_mismatch:
  "list_all is_word k \<Longrightarrow> list_all is_word w \<Longrightarrow> map case_code k \<noteq> map case_code w \<Longrightarrow>
   \<not> starts_with True (w @ ''>'') (k @ ''>'' @ s)"
proof (induction w arbitrary: k)
  case Nil
  then obtain c k' where k: "k = c # k'" by (cases k) auto
  with Nil have "is_word c" by simp
  from word_code [OF this] k show ?case by (simp add: case_code_gt)
next
  case (Cons x w)
  show ?case
  proof (cases k)
    case Nil
    from Cons.prems have "is_word x" by simp
    from word_code [OF this] Nil show ?thesis by (simp add: case_code_gt)
  next
    case (Cons c k')
    with Cons.prems Cons.IH [of k'] show ?thesis by auto
  qed
qed

lemma xml_text_ok_iff:
  "xml_text_ok v \<longleftrightarrow>
     (\<exists>s. v = JStr s \<and> CHR ''&'' \<notin> set s \<and> CHR ''<'' \<notin> set s \<and> CHR ''>'' \<notin> set s \<and> js_trim s = s)"
  by (cases v) (simp_all add: xml_text_ok_def)

subsection \<open>Tagged markup: fields and items\<close>

lemma replace_char_none: "c \<notin> set s \<Longrightarrow> replace_char c rep s = s"
  by (induction s) (auto simp: replace_char_def)

lemma escXml_plain:
  "CHR ''&'' \<notin> set s \<Longrightarrow> CHR ''<'' \<notin> set s \<Longrightarrow> CHR ''>'' \<notin> set s \<Longrightarrow> escXml s = s"
  by (simp add: escXml_def replace_char_none)

lemma xml_field_text:
  "xml_text_ok v \<Longrightarrow> xml_field (k, v) = field_text k (to_string v)"
  by (auto simp: xml_field_def field_text_def xml_text_ok_iff escXml_plain)

lemma xml_fields_skip: "c \<noteq> CHR ''<'' \<Longrightarrow> xml_fields (c # s) = xml_fields s"
  by simp

lemma takeWhile_word: "list_all is_word k \<Longrightarrow> takeWhile is_word (k @ CHR ''>'' # r) = k"
  by (induction k) simp_all

lemma dropWhile_word: "list_all is_word k \<Longrightarrow> dropWhile is_word (k @ CHR ''>'' # r) = CHR ''>'' # r"
  by (induction k) simp_all

lemma find_close:
  assumes v: "CHR ''<'' \<notin> set v"
  shows "find_sub False (CHR ''<'' # p) (v @ CHR ''<'' # p @ s) = Some (v, s)"
proof -
  have skip: "list_all (\<lambda>c. \<not> ch_match False (CHR ''<'') c) v"
    using v by (auto simp: list_all_iff ch_match_def)
  have here: "find_sub False (CHR ''<'' # p) ((CHR ''<'' # p) @ s) = Some ([], s)"
    by (rule find_sub_here) simp
  show ?thesis
    using find_sub_skip [OF skip, of p "(CHR ''<'' # p) @ s"] here by simp
qed

lemma xml_fields_open:
  assumes "k \<noteq> []" "list_all is_word k"
    and "find_sub False (CHR ''<'' # CHR ''/'' # k @ ''>'') r = Some (v, t)"
  shows "xml_fields (CHR ''<'' # k @ CHR ''>'' # r) = (k, js_trim v) # xml_fields t"
  using assms
  by (subst xml_fields.simps) (simp add: takeWhile_word dropWhile_word del: xml_fields.simps)

lemma xml_fields_field:
  assumes k: "k \<noteq> []" "list_all is_word k" and v: "CHR ''<'' \<notin> set v"
  shows "xml_fields (field_text k v @ s) = (k, js_trim v) # xml_fields s"
proof -
  have fs: "find_sub False (CHR ''<'' # CHR ''/'' # k @ ''>'')
              (v @ CHR ''<'' # (CHR ''/'' # k @ ''>'') @ nl @ s) = Some (v, nl @ s)"
    by (rule find_close [OF v])
  have "xml_fields (CHR ''<'' # k @ CHR ''>'' # (v @ CHR ''<'' # (CHR ''/'' # k @ ''>'') @ nl @ s)) =
        (k, js_trim v) # xml_fields (nl @ s)"
    by (rule xml_fields_open [OF k fs])
  moreover have "xml_fields (nl @ s) = xml_fields s"
    by (simp add: nl_def)
  moreover have "field_text k v @ s =
      ''    '' @ CHR ''<'' # k @ CHR ''>'' # (v @ CHR ''<'' # (CHR ''/'' # k @ ''>'') @ nl @ s)"
    by (simp add: field_text_def)
  moreover have "xml_fields (''    '' @ t) = xml_fields t" for t
    by simp
  ultimately show ?thesis
    by (simp only:)
qed

lemma skips_plain: "CHR ''<'' \<notin> set a \<Longrightarrow> skips a s"
  unfolding skips_def
  by (rule find_sub_skip) (auto simp: list_all_iff ch_match_def case_code_lt case_code_eq_lt)

lemma skips_append: "skips a (b @ s) \<Longrightarrow> skips b s \<Longrightarrow> skips (a @ b) s"
  by (simp add: skips_def option.map_comp comp_def)

lemma skips_open: "is_word c \<Longrightarrow> skips ''<'' (c # s)"
  using word_code [of c]
  by (simp add: skips_def map_option_case case_code_def [of "CHR ''/''"])

lemma skips_close:
  assumes "list_all is_word k" "map case_code k \<noteq> map case_code ''transaction''"
  shows "skips ''<'' (CHR ''/'' # k @ ''>'' @ s)"
proof -
  have "list_all is_word ''transaction''"
    by (simp add: is_word_def)
  from tag_mismatch [OF assms(1) this assms(2), of s]
  have "\<not> starts_with True ''</transaction>'' (CHR ''<'' # CHR ''/'' # k @ ''>'' @ s)"
    by simp
  from find_sub_skip1 [OF this] show ?thesis
    by (simp add: skips_def del: find_sub.simps)
qed

lemma skips_field:
  assumes k: "xml_key_ok k" and v: "CHR ''<'' \<notin> set v"
  shows "skips (field_text k v) s"
proof -
  from k obtain c k' where kc: "k = c # k'" and w: "list_all is_word k"
    and m: "map case_code k \<noteq> map case_code ''transaction''"
    by (cases k) (auto simp: xml_key_ok_def)
  from w kc have c: "is_word c" by simp
  from w have nk: "CHR ''<'' \<notin> set k"
    by (auto simp: list_all_iff dest: word_chars)
  define e where "e = CHR ''/'' # k @ ''>'' @ nl"
  define b where "b = k @ ''>'' @ v"
  have 1: "skips e s"
    using nk by (intro skips_plain) (simp add: nl_def e_def)
  have "skips ''<'' (e @ s)"
    using skips_close [OF w m, of "nl @ s"] by (simp add: e_def)
  from skips_append [OF this 1] have 2: "skips (''<'' @ e) s" .
  have "skips b ((''<'' @ e) @ s)"
    using nk v by (intro skips_plain) (simp add: b_def)
  from skips_append [OF this 2] have 3: "skips (b @ ''<'' @ e) s" .
  have "skips ''<'' ((b @ ''<'' @ e) @ s)"
    using skips_open [OF c] kc by (simp add: b_def)
  from skips_append [OF this 3] have 4: "skips (''<'' @ b @ ''<'' @ e) s" .
  have "skips ''    '' ((''<'' @ b @ ''<'' @ e) @ s)"
    by (intro skips_plain) simp
  from skips_append [OF this 4] have "skips (''    '' @ ''<'' @ b @ ''<'' @ e) s" .
  then show ?thesis by (simp add: field_text_def b_def e_def)
qed

lemma xml_rec_fields: "xml_rec_ok r \<Longrightarrow> fields_ok r"
  by (auto simp: xml_rec_ok_def fields_ok_def list_all_iff obj_keys_def)

lemma skips_fields: "fields_ok r \<Longrightarrow> skips (concat (map xml_field r)) s"
proof (induction r)
  case Nil
  show ?case by (simp add: skips_def option.map_ident)
next
  case (Cons p r)
  then have k: "xml_key_ok (fst p)" and t: "xml_text_ok (snd p)" and r: "fields_ok r"
    by (simp_all add: fields_ok_def)
  from t have v: "CHR ''<'' \<notin> set (to_string (snd p))"
    by (auto simp: xml_text_ok_iff)
  have "xml_field p = field_text (fst p) (to_string (snd p))"
    using xml_field_text [OF t, of "fst p"] by simp
  with skips_field [OF k v] Cons.IH [OF r] show ?case
    by (simp add: skips_append)
qed

lemma skips_inner:
  assumes "fields_ok r"
  shows "skips (inner r) s"
proof -
  have 1: "skips ''  '' s"
    by (rule skips_plain) simp
  from skips_append [OF skips_fields [OF assms] 1]
  have 2: "skips (concat (map xml_field r) @ ''  '') s" .
  have "skips nl ((concat (map xml_field r) @ ''  '') @ s)"
    by (rule skips_plain) (simp add: nl_def)
  from skips_append [OF this 2] show ?thesis
    by (simp add: inner_def)
qed

lemma find_close_item:
  assumes "fields_ok r"
  shows "find_sub True ''</transaction>'' (inner r @ ''</transaction>'' @ s) = Some (inner r, s)"
proof -
  have "find_sub True ''</transaction>'' (''</transaction>'' @ s) = Some ([], s)"
    by (rule find_sub_here) simp
  with skips_inner [OF assms, of "''</transaction>'' @ s"] show ?thesis
    by (simp add: skips_def del: find_sub.simps)
qed

lemma xml_fields_fields:
  "fields_ok r \<Longrightarrow>
   xml_fields (concat (map xml_field r) @ s) = map (\<lambda>p. (fst p, to_string (snd p))) r @ xml_fields s"
proof (induction r)
  case Nil
  show ?case by simp
next
  case (Cons p r)
  then have k: "xml_key_ok (fst p)" and t: "xml_text_ok (snd p)" and r: "fields_ok r"
    by (simp_all add: fields_ok_def)
  from t have v: "CHR ''<'' \<notin> set (to_string (snd p))" "js_trim (to_string (snd p)) = to_string (snd p)"
    by (auto simp: xml_text_ok_iff)
  from k have k': "fst p \<noteq> []" "list_all is_word (fst p)"
    by (simp_all add: xml_key_ok_def)
  have f: "xml_field p = field_text (fst p) (to_string (snd p))"
    using xml_field_text [OF t, of "fst p"] by simp
  show ?case
    using xml_fields_field [OF k' v(1), of "concat (map xml_field r) @ s"] Cons.IH [OF r]
    by (simp add: f v(2) del: xml_fields.simps)
qed

lemma xml_record_inner:
  assumes "xml_rec_ok r"
  shows "xml_record (inner r) = r"
proof -
  from assms have f: "fields_ok r" by (rule xml_rec_fields)
  from assms have strs: "\<And>p. p \<in> set r \<Longrightarrow> JStr (to_string (snd p)) = snd p"
    by (auto simp: xml_rec_ok_def list_all_iff xml_text_ok_iff)
  from assms have np: "''__proto__'' \<notin> set (obj_keys r)"
    by (auto simp: xml_rec_ok_def list_all_iff xml_key_ok_def)
  have "xml_fields (inner r) = map (\<lambda>p. (fst p, to_string (snd p))) r"
    using xml_fields_fields [OF f, of "''  ''"] by (simp add: inner_def nl_def)
  then have "xml_record (inner r) =
      foldl (\<lambda>ob p. obj_set ob (fst p) (snd p)) [] (map (\<lambda>p. (fst p, JStr (to_string (snd p)))) r)"
    by (simp add: xml_record_def foldl_map)
  also have "map (\<lambda>p. (fst p, JStr (to_string (snd p)))) r = r"
    using strs by (induction r) auto
  finally show ?thesis
    using rebuild_set [OF _ np] assms by (simp add: xml_rec_ok_def)
qed

lemma xml_items_skip:
  "\<not> starts_with True ''<transaction>'' (c # s) \<Longrightarrow> xml_items (c # s) = xml_items s"
  by (subst xml_items.simps, subst (2) xml_items.simps)
     (simp add: find_sub_skip1 option.case_eq_if option.map_sel del: find_sub.simps xml_items.simps
           split: option.splits)

lemma xml_items_item:
  assumes "fields_ok r"
  shows "xml_items (xml_item r @ s) = inner r # xml_items s"
proof -
  have open_tag: "find_sub True ''<transaction>'' (''  <transaction>'' @ t) = Some (''  '', t)" for t
    by (simp add: case_code_def)
  have "xml_item r @ s = ''  <transaction>'' @ inner r @ ''</transaction>'' @ nl @ s"
    by (simp add: xml_item_def inner_def)
  then have "xml_items (xml_item r @ s) = inner r # xml_items (nl @ s)"
    by (subst xml_items.simps)
       (simp only: open_tag find_close_item [OF assms] option.case fst_conv snd_conv)
  also have "xml_items (nl @ s) = xml_items s"
    unfolding nl_def by (simp add: xml_items_skip case_code_def del: xml_items.simps)
  finally show ?thesis .
qed

lemma xml_items_body:
  "list_all fields_ok rs \<Longrightarrow>
   xml_items (concat (map xml_item rs) @ ''</transactions>'') = map inner rs"
proof (induction rs)
  case Nil
  show ?case by (simp add: case_code_def)
next
  case (Cons r rs)
  then show ?case
    using xml_items_item [of r "concat (map xml_item rs) @ ''</transactions>''"]
    by (simp del: xml_items.simps)
qed

lemma xml_items_prolog: "xml_items (xml_prolog @ s) = xml_items s"
  unfolding xml_prolog_def nl_def dquote_def
  by (simp add: xml_items_skip case_code_def del: xml_items.simps)

lemma xml_roundtrip:
  assumes "xml_ok rs"
  shows "xmlToRecords (recordsToXml rs) = rs"
proof -
  from assms have f: "list_all fields_ok rs"
    by (auto simp: xml_ok_def list_all_iff xml_rec_fields)
  have "xml_items (recordsToXml rs) = map inner rs"
    by (simp add: recordsToXml_def xml_items_prolog xml_items_body [OF f] del: xml_items.simps)
  then have "xmlToRecords (recordsToXml rs) = map (\<lambda>r. xml_record (inner r)) rs"
    by (simp add: xmlToRecords_def)
  also have "\<dots> = rs"
    using assms by (induction rs) (simp_all add: xml_ok_def xml_record_inner)
  finally show ?thesis .
qed

text \<open>
  Claim C4. The claim: a record set with a uniform field set whose values contain no
  comma and no markup-special character is equal to what is read back from its
  delimited-text form, and from its tagged-markup form. Both parsers trim every value,
  so a value with a space at one end comes back without it: the record set below has
  one field, no comma and no markup-special character, and neither round trip returns it.
\<close>

theorem trimmed_value_lost:
  "csvToRecords (recordsToCsv [[(''memo'', JStr '' x'')]]) = [[(''memo'', JStr ''x'')]] \<and>
   xmlToRecords (recordsToXml [[(''memo'', JStr '' x'')]]) = [[(''memo'', JStr ''x'')]]"
  by code_simp

text \<open>
  Claim C4, amended. The delimited-text round trip returns the record set when it is
  \<open>csv_ok\<close>: same fields in the same order in every record, at least one field, no blank
  line, names and values that are text without comma, line feed and white space at the
  ends, no field named \<^verbatim>\<open>__proto__\<close>. The tagged-markup round trip returns it when it is
  \<open>xml_ok\<close>: names that are non-empty runs of word characters other than the item tag and
  \<^verbatim>\<open>__proto__\<close>, values that are text without ampersand, angle brackets and white space
  at the ends.
\<close>

theorem tabular_roundtrip:
  "(csv_ok rs \<longrightarrow> csvToRecords (recordsToCsv rs) = rs) \<and>
   (xml_ok rs \<longrightarrow> xmlToRecords (recordsToXml rs) = rs)"
  by (simp add: csv_roundtrip xml_roundtrip)

theorem tabular_roundtrip_witness:
  "csv_ok [[(''id'', JStr ''1''), (''name'', JStr ''Kim Min'')], [(''id'', JStr ''2''), (''name'', JStr [])]] \<and>
   xml_ok [[(''id'', JStr ''1''), (''name'', JStr ''Kim Min'')], [(''id'', JStr ''2''), (''name'', JStr [])]] \<and>
   csvToRecords (recordsToCsv
     [[(''id'', JStr ''1''), (''name'', JStr ''Kim Min'')], [(''id'', JStr ''2''), (''name'', JStr [])]]) =
     [[(''id'', JStr ''1''), (''name'', JStr ''Kim Min'')], [(''id'', JStr ''2''), (''name'', JStr [])]] \<and>
   xmlToRecords (recordsToXml
     [[(''id'', JStr ''1''), (''name'', JStr ''Kim Min'')], [(''id'', JStr ''2''), (''name'', JStr [])]]) =
     [[(''id'', JStr ''1''), (''name'', JStr ''Kim Min'')], [(''id'', JStr ''2''), (''name'', JStr [])]]"
proof -
  have c: "csv_ok [[(''id'', JStr ''1''), (''name'', JStr ''Kim Min'')], [(''id'', JStr ''2''), (''name'', JStr [])]]"
    by code_simp
  have x: "xml_ok [[(''id'', JStr ''1''), (''name'', JStr ''Kim Min'')], [(''id'', JStr ''2''), (''name'', JStr [])]]"
    by code_simp
  from tabular_roundtrip
    [of "[[(''id'', JStr ''1''), (''name'', JStr ''Kim Min'')], [(''id'', JStr ''2''), (''name'', JStr [])]]"]
    c x show ?thesis by blast
qed

subsection \<open>Structured document: strings and white space\<close>

lemma hex_digits: "list_all (\<lambda>k. hex_val (digit_char k) = Some k) [0..<16]"
  by code_simp

lemma hex_digit: "k < 16 \<Longrightarrow> hex_val (digit_char k) = Some k"
  using hex_digits by (simp add: list_all_iff)

lemma hex_zero: "hex_val (CHR ''0'') = Some 0"
  by (simp add: hex_val_def)

lemma hex_high: "(of_char c :: nat) < 32 \<Longrightarrow>
    hex_val (digit_char ((of_char c :: nat) div 16)) = Some ((of_char c :: nat) div 16)"
  by (rule hex_digit) simp

lemma hex_low: "hex_val (digit_char ((of_char c :: nat) mod 16)) = Some ((of_char c :: nat) mod 16)"
  by (rule hex_digit) simp

lemma parse_escape: "parse_chars (json_escape c @ t) = cons_char c (parse_chars t)"
  unfolding json_escape_def
  by (auto simp: hex_zero hex_high hex_low unescape_def bslash_def dquote_def)

lemma parse_quoted: "parse_chars (concat (map json_escape s) @ dquote # t) = Inr (s, t)"
  by (induction s) (simp_all add: parse_escape cons_char_def del: parse_chars.simps, simp)

lemma skip_ws_app: "list_all json_ws w \<Longrightarrow> skip_ws (w @ s) = skip_ws s"
  by (induction w) (simp_all add: skip_ws_def)

lemma skip_ws_head: "\<not> json_ws c \<Longrightarrow> skip_ws (c # t) = c # t"
  by (simp add: skip_ws_def)

lemma skip_ws_to: "list_all json_ws w \<Longrightarrow> \<not> json_ws c \<Longrightarrow> skip_ws (w @ c # t) = c # t"
  by (simp add: skip_ws_app skip_ws_head)

lemma not_ws [simp]:
  "\<not> json_ws dquote" "\<not> json_ws (CHR '':'')" "\<not> json_ws (CHR '','')" "\<not> json_ws (CHR ''}'')"
  "\<not> json_ws (CHR '']'')" "\<not> json_ws (CHR ''{'')" "\<not> json_ws (CHR ''['')"
  by (simp_all add: json_ws_def dquote_def)

lemma parse_value_ws: "list_all json_ws w \<Longrightarrow> parse_value n (w @ s) = parse_value n s"
  by (cases n) (simp_all add: skip_ws_app)

lemma parse_members_ws: "list_all json_ws w \<Longrightarrow> parse_members n acc (w @ s) = parse_members n acc s"
  by (cases n) (simp_all add: skip_ws_app)

lemma parse_elems_ws: "list_all json_ws w \<Longrightarrow> parse_elems n acc (w @ s) = parse_elems n acc s"
  by (cases n) (simp_all add: parse_value_ws del: parse_value.simps)

lemma parse_text:
  assumes "is_text v"
  shows "parse_value (Suc n) (stringify gap ind v @ t) = Inr (v, t)"
proof -
  from assms obtain s where v: "v = JStr s" by (cases v) (simp_all add: is_text_def)
  have "skip_ws (dquote # concat (map json_escape s) @ dquote # t) =
        dquote # concat (map json_escape s) @ dquote # t"
    by (rule skip_ws_head) simp
  then show ?thesis
    by (simp add: v quote_json_def parse_quoted dquote_def [symmetric]
          del: parse_chars.simps)
      (simp add: dquote_def)
qed

subsection \<open>Structured document: members, records and arrays\<close>

lemma member_step:
  assumes "is_text v" and "skip_ws rest = d # u"
  shows "parse_members (Suc m) acc (quote_json k @ '': '' @ stringify gap ind v @ rest) =
         (if d = CHR '','' then parse_members m (obj_define acc k v) u
          else if d = CHR ''}'' then Inr (JObj (obj_define acc k v), u)
          else Inl (SyntaxError ''Unexpected token in JSON''))"
proof -
  define val where "val = stringify gap ind v @ rest"
  define s where "s = concat (map json_escape k) @ dquote # CHR '':'' # CHR '' '' # val"
  have 1: "skip_ws (dquote # s) = dquote # s"
    by (rule skip_ws_head) simp
  have 2: "parse_chars s = Inr (k, CHR '':'' # CHR '' '' # val)"
    unfolding s_def by (rule parse_quoted)
  have 3: "skip_ws (CHR '':'' # CHR '' '' # val) = CHR '':'' # CHR '' '' # val"
    by (simp add: skip_ws_head)
  have 4: "parse_value (Suc m) (CHR '' '' # val) = Inr (v, rest)"
    using parse_value_ws [of "'' ''" "Suc m" val] parse_text [OF assms(1), of m gap ind rest]
    by (simp add: json_ws_def val_def del: parse_value.simps)
  have "quote_json k @ '': '' @ stringify gap ind v @ rest = dquote # s"
    by (simp add: quote_json_def s_def val_def)
  then show ?thesis
    by (simp add: 1 2 3 4 assms(2) del: parse_value.simps parse_chars.simps)
qed

lemma parse_members_text:
  assumes w: "list_all json_ws w" "list_all json_ws w'"
  shows "ps \<noteq> [] \<Longrightarrow> text_record ps \<Longrightarrow> length ps \<le> n \<Longrightarrow>
     parse_members n acc
       (join_strs ('','' @ w) (map (\<lambda>p. quote_json (fst p) @ '': '' @ stringify gap ind (snd p)) ps) @
        w' @ CHR ''}'' # t) =
     Inr (JObj (rebuilt acc ps), t)"
proof (induction ps arbitrary: n acc)
  case Nil
  then show ?case by simp
next
  case (Cons p ps)
  from Cons.prems obtain m where n: "n = Suc m" and m: "length ps \<le> m"
    by (cases n) simp_all
  from Cons.prems have v: "is_text (snd p)" and r: "text_record ps"
    by (simp_all add: text_record_def)
  let ?f = "\<lambda>p. quote_json (fst p) @ '': '' @ stringify gap ind (snd p)"
  show ?case
  proof (cases ps)
    case Nil
    have "skip_ws (w' @ CHR ''}'' # t) = CHR ''}'' # t"
      using w(2) by (simp add: skip_ws_to)
    from member_step [OF v this, of m acc "fst p" gap ind] show ?thesis
      by (simp add: n Nil del: parse_members.simps)
  next
    case (Cons q qs)
    let ?rest = "join_strs ('','' @ w) (map ?f ps) @ w' @ CHR ''}'' # t"
    have "skip_ws (CHR '','' # w @ ?rest) = CHR '','' # w @ ?rest"
      by (simp add: skip_ws_head)
    from member_step [OF v this, of m acc "fst p" gap ind]
    have "parse_members n acc (?f p @ '','' @ w @ ?rest) =
          parse_members m (obj_define acc (fst p) (snd p)) (w @ ?rest)"
      by (simp add: n del: parse_members.simps)
    also have "\<dots> = parse_members m (obj_define acc (fst p) (snd p)) ?rest"
      using w(1) by (rule parse_members_ws)
    also have "\<dots> = Inr (JObj (rebuilt (obj_define acc (fst p) (snd p)) ps), t)"
      using Cons by (intro Cons.IH r m) simp
    finally show ?thesis
      by (simp add: Cons del: parse_members.simps)
  qed
qed

lemma join_quoted_head:
  assumes "ps \<noteq> []"
  shows "\<exists>x. join_strs sep (map (\<lambda>p. quote_json (fst p) @ g p) ps) @ y = dquote # x"
proof -
  from assms obtain p qs where ps: "ps = p # qs" by (cases ps) auto
  show ?thesis by (cases qs) (simp_all add: ps quote_json_def)
qed

lemma obj_open:
  "skip_ws t = d # u \<Longrightarrow> d \<noteq> CHR ''}'' \<Longrightarrow>
   parse_value (Suc n) (CHR ''{'' # t) = parse_members n [] (d # u)"
  by (simp add: skip_ws_head del: parse_members.simps)

lemma arr_open:
  "skip_ws t = d # u \<Longrightarrow> d \<noteq> CHR '']'' \<Longrightarrow>
   parse_value (Suc n) (CHR ''['' # t) = parse_elems n [] (d # u)"
  by (simp add: skip_ws_head del: parse_elems.simps)

lemma parse_record:
  assumes r: "text_record r" and n: "length r \<le> n"
    and ws: "list_all json_ws ind" "list_all json_ws gap" and gap: "gap \<noteq> []"
  shows "parse_value (Suc n) (stringify gap ind (JObj r) @ t) = Inr (JObj (rebuilt [] r), t)"
proof (cases "r = []")
  case True
  have "skip_ws (CHR ''{'' # CHR ''}'' # t) = CHR ''{'' # CHR ''}'' # t"
       "skip_ws (CHR ''}'' # t) = CHR ''}'' # t"
    by (simp_all add: skip_ws_head)
  then show ?thesis
    using True by simp
next
  case False
  define f where "f = (\<lambda>p :: string \<times> jsval. quote_json (fst p) @ '': '' @ stringify gap (ind @ gap) (snd p))"
  define body where "body = join_strs ('','' @ nl @ ind @ gap) (map f r) @ (nl @ ind) @ CHR ''}'' # t"
  have w: "list_all json_ws (nl @ ind @ gap)" "list_all json_ws (nl @ ind)"
    using ws by (simp_all add: nl_def json_ws_def)
  have out: "stringify gap ind (JObj r) @ t = CHR ''{'' # (nl @ ind @ gap) @ body"
    using False gap by (simp add: body_def f_def)
  from join_quoted_head [OF False, of "'','' @ nl @ ind @ gap"
      "\<lambda>p. '': '' @ stringify gap (ind @ gap) (snd p)" "(nl @ ind) @ CHR ''}'' # t"]
  obtain x where x: "body = dquote # x"
    by (auto simp: body_def f_def)
  have 2: "skip_ws ((nl @ ind @ gap) @ body) = dquote # x"
    unfolding x using w(1) by (rule skip_ws_to) simp
  have "parse_value (Suc n) (CHR ''{'' # (nl @ ind @ gap) @ body) = parse_members n [] (dquote # x)"
    by (rule obj_open [OF 2]) (simp add: dquote_def)
  also have "\<dots> = parse_members n [] body"
    by (simp only: x)
  also have "\<dots> = Inr (JObj (rebuilt [] r), t)"
    unfolding body_def f_def by (rule parse_members_text [OF w False r n])
  finally show ?thesis
    by (simp only: out)
qed

lemma elem_step:
  assumes "parse_value (Suc m) s = Inr (v, rest)" and "skip_ws rest = d # u"
  shows "parse_elems (Suc m) acc s =
         (if d = CHR '','' then parse_elems m (acc @ [v]) u
          else if d = CHR '']'' then Inr (JArr (acc @ [v]), u)
          else Inl (SyntaxError ''Unexpected token in JSON''))"
  using assms by (simp del: parse_value.simps parse_elems.simps add: parse_elems.simps(2))

lemma parse_records:
  assumes w: "list_all json_ws w" "list_all json_ws w'"
    and ws: "list_all json_ws ind" "list_all json_ws gap" and gap: "gap \<noteq> []"
  shows "rs \<noteq> [] \<Longrightarrow> list_all text_record rs \<Longrightarrow> length (concat rs) + length rs \<le> n \<Longrightarrow>
     parse_elems n acc
       (join_strs ('','' @ w) (map (\<lambda>r. stringify gap ind (JObj r)) rs) @ w' @ CHR '']'' # t) =
     Inr (JArr (acc @ map (\<lambda>r. JObj (rebuilt [] r)) rs), t)"
proof (induction rs arbitrary: n acc)
  case Nil
  then show ?case by simp
next
  case (Cons r rs)
  from Cons.prems obtain m where n: "n = Suc m" and m: "length (concat rs) + length rs \<le> m"
    and rm: "length r \<le> m"
    by (cases n) simp_all
  from Cons.prems have tr: "text_record r" and trs: "list_all text_record rs"
    by simp_all
  let ?f = "\<lambda>r. stringify gap ind (JObj r)"
  show ?case
  proof (cases rs)
    case Nil
    have 1: "parse_value (Suc m) (?f r @ w' @ CHR '']'' # t) = Inr (JObj (rebuilt [] r), w' @ CHR '']'' # t)"
      by (rule parse_record [OF tr rm ws gap])
    have 2: "skip_ws (w' @ CHR '']'' # t) = CHR '']'' # t"
      using w(2) by (simp add: skip_ws_to)
    from elem_step [OF 1 2, of acc] show ?thesis
      by (simp add: n Nil del: parse_value.simps parse_elems.simps stringify.simps)
  next
    case (Cons q qs)
    let ?rest = "join_strs ('','' @ w) (map ?f rs) @ w' @ CHR '']'' # t"
    have 1: "parse_value (Suc m) (?f r @ CHR '','' # w @ ?rest) =
             Inr (JObj (rebuilt [] r), CHR '','' # w @ ?rest)"
      by (rule parse_record [OF tr rm ws gap])
    have 2: "skip_ws (CHR '','' # w @ ?rest) = CHR '','' # w @ ?rest"
      by (simp add: skip_ws_head)
    from elem_step [OF 1 2, of acc]
    have "parse_elems n acc (?f r @ CHR '','' # w @ ?rest) =
          parse_elems m (acc @ [JObj (rebuilt [] r)]) (w @ ?rest)"
      by (simp add: n del: parse_value.simps parse_elems.simps stringify.simps)
    also have "\<dots> = parse_elems m (acc @ [JObj (rebuilt [] r)]) ?rest"
      using w(1) by (rule parse_elems_ws)
    also have "\<dots> = Inr (JArr ((acc @ [JObj (rebuilt [] r)]) @ map (\<lambda>r. JObj (rebuilt [] r)) rs), t)"
      using Cons by (intro Cons.IH trs m) simp
    finally show ?thesis
      by (simp add: Cons del: parse_value.simps parse_elems.simps stringify.simps)
  qed
qed

lemma join_brace_head:
  assumes "rs \<noteq> []"
  shows "\<exists>x. join_strs sep (map (\<lambda>r. stringify gap ind (JObj r)) rs) @ y = CHR ''{'' # x"
proof -
  from assms obtain r qs where rs: "rs = r # qs" by (cases rs) auto
  show ?thesis by (cases qs) (simp_all add: rs)
qed

subsection \<open>Structured document: the fuel is enough\<close>

lemma length_join_ge:
  "(\<And>x. x \<in> set xs \<Longrightarrow> g x \<le> length (f x)) \<Longrightarrow>
   sum_list (map g xs) \<le> length (join_strs sep (map f xs))"
proof (induction xs)
  case Nil
  show ?case by simp
next
  case (Cons x xs)
  then have ih: "sum_list (map g xs) \<le> length (join_strs sep (map f xs))" and x: "g x \<le> length (f x)"
    by simp_all
  show ?case using ih x by (cases xs) simp_all
qed

lemma length_record_text:
  assumes "gap \<noteq> []"
  shows "Suc (length r) \<le> length (stringify gap ind (JObj r))"
proof (cases "r = []")
  case True
  then show ?thesis by simp
next
  case False
  have "sum_list (map (\<lambda>p. 1) r) \<le>
        length (join_strs ('','' @ nl @ ind @ gap)
          (map (\<lambda>p. quote_json (fst p) @ '': '' @ stringify gap (ind @ gap) (snd p)) r))"
    by (rule length_join_ge) (simp add: quote_json_def)
  then show ?thesis
    using False assms by (simp add: sum_list_triv)
qed

lemma length_array_text:
  assumes "gap \<noteq> []"
  shows "length (concat rs) + length rs \<le> length (stringify gap ind (JArr (map JObj rs)))"
proof (cases "rs = []")
  case True
  then show ?thesis by simp
next
  case False
  have "sum_list (map (\<lambda>r. Suc (length r)) rs) \<le>
        length (join_strs ('','' @ nl @ ind @ gap) (map (\<lambda>r. stringify gap (ind @ gap) (JObj r)) rs))"
    by (rule length_join_ge) (rule length_record_text [OF assms])
  moreover have "sum_list (map (\<lambda>r. Suc (length r)) rs) = length (concat rs) + length rs"
    by (induction rs) simp_all
  ultimately show ?thesis
    using False assms by (simp add: comp_def del: stringify.simps(6))
qed

lemma JSON_parse_stringify:
  assumes "json_ok rs"
  shows "JSON_parse (JSON_stringify2 (JArr (map JObj rs))) = Inr (JArr (map JObj rs))"
proof (cases "rs = []")
  case True
  then show ?thesis
    by (simp add: JSON_parse_def JSON_stringify2_def skip_ws_def json_ws_def)
next
  case False
  define f where "f = (\<lambda>r. stringify ''  '' ''  '' (JObj r))"
  define body where "body = join_strs ('','' @ nl @ ''  '') (map f rs) @ nl @ CHR '']'' # []"
  define out where "out = JSON_stringify2 (JArr (map JObj rs))"
  from assms have tr: "list_all text_record rs" and wf: "\<And>r. r \<in> set rs \<Longrightarrow> wf_keys (obj_keys r)"
    by (auto simp: json_ok_def list_all_iff)
  have out: "out = CHR ''['' # (nl @ ''  '') @ body"
    using False by (simp add: out_def JSON_stringify2_def body_def f_def comp_def)
  from join_brace_head [OF False, of "'','' @ nl @ ''  ''" "''  ''" "''  ''" "nl @ CHR '']'' # []"]
  obtain x where x: "body = CHR ''{'' # x"
    by (auto simp: body_def f_def)
  have w: "list_all json_ws (nl @ ''  '')" "list_all json_ws nl" "list_all json_ws ''  ''"
    by (simp_all add: nl_def json_ws_def)
  have fuel: "length (concat rs) + length rs \<le> length out"
    unfolding out_def JSON_stringify2_def by (rule length_array_text) simp
  have 2: "skip_ws ((nl @ ''  '') @ body) = CHR ''{'' # x"
    unfolding x using w(1) by (rule skip_ws_to) simp
  have "parse_value (Suc (length out)) (CHR ''['' # (nl @ ''  '') @ body) =
        parse_elems (length out) [] (CHR ''{'' # x)"
    by (rule arr_open [OF 2]) simp
  also have "\<dots> = parse_elems (length out) [] body"
    by (simp only: x)
  also have "\<dots> = Inr (JArr ([] @ map (\<lambda>r. JObj (rebuilt [] r)) rs), [])"
    unfolding body_def f_def
    by (rule parse_records [OF w(1) w(2) w(3) w(3) _ False tr fuel]) simp
  also have "map (\<lambda>r. JObj (rebuilt [] r)) rs = map JObj rs"
    using wf rebuild_define [of "[]"] by (induction rs) simp_all
  finally have "parse_value (Suc (length out)) out = Inr (JArr (map JObj rs), [])"
    by (simp only: out append_Nil)
  then show ?thesis
    by (simp add: JSON_parse_def out_def [symmetric] skip_ws_def del: parse_value.simps)
qed

text \<open>
  Claim C3. A record set written by \<^verbatim>\<open>JSON.stringify(records, null, 2)\<close>, as the transform
  pipeline and the export route write it, and read back by \<^verbatim>\<open>parseFile\<close> as a
  \<^verbatim>\<open>.json\<close> file is the record set itself. The records are objects whose values are text,
  as the data model has them; they need not list the same fields, so the claim's
  uniform record sets are covered. The parser returns: its fuel is not used up.
\<close>

theorem json_roundtrip:
  "json_ok rs \<Longrightarrow> parseFile (render rs ''.json'') ''.json'' = Inr (JArr (map JObj rs))"
  by (simp add: parseFile_def render_def JSON_parse_stringify)

theorem json_roundtrip_witness:
  "json_ok [[(''id'', JStr ''1''), (''memo'', JStr ''a, <b> & c '')], [(''7'', JStr []), (''id'', JStr ''2'')]] \<and>
   parseFile (render [[(''id'', JStr ''1''), (''memo'', JStr ''a, <b> & c '')],
                      [(''7'', JStr []), (''id'', JStr ''2'')]] ''.json'') ''.json'' =
     Inr (JArr (map JObj [[(''id'', JStr ''1''), (''memo'', JStr ''a, <b> & c '')],
                          [(''7'', JStr []), (''id'', JStr ''2'')]]))"
proof -
  have ok: "json_ok [[(''id'', JStr ''1''), (''memo'', JStr ''a, <b> & c '')], [(''7'', JStr []), (''id'', JStr ''2'')]]"
    by code_simp
  from json_roundtrip [OF ok] ok show ?thesis by simp
qed

end
